theory Spec2Isabelle
  imports Main
begin

section \<open>Syntax tree\<close>

text \<open>
  A \<open>RegexNode\<close> object of the source has the fields \<open>type\<close>, \<open>left\<close>, \<open>right\<close> and
  \<open>symbol\<close>, set once by the constructor, and the fields \<open>nullable\<close>, \<open>firstpos\<close>,
  \<open>lastpos\<close> and \<open>position\<close>, which \<open>annotate\<close> overwrites in place.  The parser builds
  four shapes only (\<open>'symbol'\<close> with a symbol, \<open>'concat'\<close> and \<open>'union'\<close> with both
  children, \<open>'star'\<close> with a left child), so the constructor fields are a datatype.
  The first argument of every constructor is the identity of the object: the \<open>+\<close>
  operator puts one and the same object at two places of the tree, and the mutable
  fields live in a store indexed by that identity (see \<open>attrs\<close> below).
\<close>

datatype RegexNode =
    SymbolNode nat char
  | ConcatNode nat RegexNode RegexNode
  | UnionNode nat RegexNode RegexNode
  | StarNode nat RegexNode

fun ident :: "RegexNode \<Rightarrow> nat" where
  "ident (SymbolNode a c) = a"
| "ident (ConcatNode a l r) = a"
| "ident (UnionNode a l r) = a"
| "ident (StarNode a l) = a"

section \<open>Parser\<close>

datatype error = MismatchedParentheses | UnexpectedCharacter "char option" | KeyError | IndexError

text \<open>
  The parser object: the input, the index of the current character and the current
  character (\<open>None\<close> at the end of the input).  \<open>next_id\<close> is the identity that the
  next constructed \<open>RegexNode\<close> gets.
\<close>

record RegexParser =
  regex :: string
  pos :: nat
  current_char :: "char option"
  next_id :: nat

definition RegexParser_init :: "string \<Rightarrow> RegexParser" where
  "RegexParser_init r =
     \<lparr>regex = r, pos = 0, current_char = (if r \<noteq> [] then Some (r ! 0) else None), next_id = 0\<rparr>"

definition advance :: "RegexParser \<Rightarrow> RegexParser" where
  "advance s =
     s\<lparr>pos := pos s + 1,
       current_char := (if pos s + 1 < length (regex s) then Some (regex s ! (pos s + 1)) else None)\<rparr>"

text \<open>\<open>str.isalnum\<close> on the characters of the model, which are bytes: ASCII digits and letters.\<close>

definition isalnum :: "char \<Rightarrow> bool" where
  "isalnum c =
     (let k = (of_char c :: nat)
      in (48 \<le> k \<and> k \<le> 57) \<or> (65 \<le> k \<and> k \<le> 90) \<or> (97 \<le> k \<and> k \<le> 122))"

text \<open>
  A parser method returns a node and leaves the parser object changed, or raises.
  The methods call each other recursively; the first argument bounds the depth of the
  calls, and \<open>None\<close> is the result of a run that exceeds it.
\<close>

type_synonym 'a result = "(error + 'a) option"

definition bind_res :: "'a result \<Rightarrow> ('a \<Rightarrow> 'b result) \<Rightarrow> 'b result" where
  "bind_res m f = (case m of None \<Rightarrow> None | Some (Inl e) \<Rightarrow> Some (Inl e) | Some (Inr x) \<Rightarrow> f x)"

fun expression :: "nat \<Rightarrow> RegexParser \<Rightarrow> (RegexNode \<times> RegexParser) result"
  and expression_loop :: "nat \<Rightarrow> RegexNode \<Rightarrow> RegexParser \<Rightarrow> (RegexNode \<times> RegexParser) result"
  and term_rule :: "nat \<Rightarrow> RegexParser \<Rightarrow> (RegexNode \<times> RegexParser) result"
  and term_loop :: "nat \<Rightarrow> RegexNode \<Rightarrow> RegexParser \<Rightarrow> (RegexNode \<times> RegexParser) result"
  and factor :: "nat \<Rightarrow> RegexParser \<Rightarrow> (RegexNode \<times> RegexParser) result"
  and factor_loop :: "nat \<Rightarrow> RegexNode \<Rightarrow> RegexParser \<Rightarrow> (RegexNode \<times> RegexParser) result"
  and base :: "nat \<Rightarrow> RegexParser \<Rightarrow> (RegexNode \<times> RegexParser) result"
where
  "expression 0 s = None"
| "expression (Suc n) s = bind_res (term_rule n s) (\<lambda>(node, s1). expression_loop n node s1)"
| "expression_loop 0 node s = None"
| "expression_loop (Suc n) node s =
     (if current_char s = Some CHR ''|'' then
        bind_res (term_rule n (advance s))
          (\<lambda>(r, s1). expression_loop n (UnionNode (next_id s1) node r) (s1\<lparr>next_id := next_id s1 + 1\<rparr>))
      else Some (Inr (node, s)))"
| "term_rule 0 s = None"
| "term_rule (Suc n) s = bind_res (factor n s) (\<lambda>(node, s1). term_loop n node s1)"
| "term_loop 0 node s = None"
| "term_loop (Suc n) node s =
     (if current_char s \<noteq> None \<and> the (current_char s) \<notin> set [CHR ''|'', CHR '')''] then
        bind_res (factor n s)
          (\<lambda>(r, s1). term_loop n (ConcatNode (next_id s1) node r) (s1\<lparr>next_id := next_id s1 + 1\<rparr>))
      else Some (Inr (node, s)))"
| "factor 0 s = None"
| "factor (Suc n) s = bind_res (base n s) (\<lambda>(node, s1). factor_loop n node s1)"
| "factor_loop 0 node s = None"
| "factor_loop (Suc n) node s =
     (if current_char s = Some CHR ''*'' then
        (let s1 = advance s
         in factor_loop n (StarNode (next_id s1) node) (s1\<lparr>next_id := next_id s1 + 1\<rparr>))
      else if current_char s = Some CHR ''+'' then
        (let s1 = advance s
         in factor_loop n (ConcatNode (next_id s1 + 1) node (StarNode (next_id s1) node))
              (s1\<lparr>next_id := next_id s1 + 2\<rparr>))
      else Some (Inr (node, s)))"
| "base 0 s = None"
| "base (Suc n) s =
     (if current_char s = Some CHR ''('' then
        bind_res (expression n (advance s))
          (\<lambda>(node, s1).
             if current_char s1 \<noteq> Some CHR '')'' then Some (Inl MismatchedParentheses)
             else Some (Inr (node, advance s1)))
      else if current_char s \<noteq> None
              \<and> (isalnum (the (current_char s)) \<or> the (current_char s) = CHR ''#'') then
        (let symbol = the (current_char s); s1 = advance s
         in Some (Inr (SymbolNode (next_id s1) symbol, s1\<lparr>next_id := next_id s1 + 1\<rparr>)))
      else Some (Inl (UnexpectedCharacter (current_char s))))"

text \<open>\<open>parse\<close> appends the end marker \<open>#\<close> as the right child of a new root.\<close>

definition parse :: "nat \<Rightarrow> RegexParser \<Rightarrow> (RegexNode \<times> RegexParser) result" where
  "parse n s =
     bind_res (expression n s)
       (\<lambda>(node, s1).
          let hash_node = SymbolNode (next_id s1) CHR ''#''
          in Some (Inr (ConcatNode (next_id s1 + 1) node hash_node, s1\<lparr>next_id := next_id s1 + 2\<rparr>)))"

text \<open>\<open>RegexParser(regex).parse()\<close>, as the callers run it.\<close>

definition parse_regex :: "nat \<Rightarrow> string \<Rightarrow> RegexNode result" where
  "parse_regex n r = bind_res (parse n (RegexParser_init r)) (\<lambda>(node, s1). Some (Inr node))"

section \<open>Position annotator\<close>

text \<open>
  The mutable fields of a \<open>RegexNode\<close>, with the values the constructor gives them.
\<close>

record attrs =
  nullable :: bool
  firstpos :: "nat set"
  lastpos :: "nat set"
  position :: "nat option"

definition new_attrs :: attrs where
  "new_attrs = \<lparr>nullable = False, firstpos = {}, lastpos = {}, position = None\<rparr>"

text \<open>
  The module globals \<open>position_counter\<close> and \<open>positions\<close>, and the memory that
  \<open>annotate\<close> works on: the globals and the mutable fields of every node object
  (\<open>node_attrs m a\<close> are the fields of the object with identity \<open>a\<close>).
\<close>

record globals =
  position_counter :: nat
  positions :: "nat \<rightharpoonup> char"

record memory = globals +
  node_attrs :: "nat \<Rightarrow> attrs"

fun annotate :: "RegexNode \<Rightarrow> memory \<Rightarrow> memory" where
  "annotate (SymbolNode a c) m =
     m\<lparr>node_attrs := (node_attrs m)
           (a := \<lparr>nullable = False, firstpos = {position_counter m},
                  lastpos = {position_counter m}, position = Some (position_counter m)\<rparr>),
       positions := (positions m)(position_counter m \<mapsto> c),
       position_counter := position_counter m + 1\<rparr>"
| "annotate (ConcatNode a l r) m =
     (let m2 = annotate r (annotate l m);
          left = node_attrs m2 (ident l);
          right = node_attrs m2 (ident r)
      in m2\<lparr>node_attrs := (node_attrs m2)
           (a := (node_attrs m2 a)
              \<lparr>nullable := nullable left \<and> nullable right,
               firstpos := (if \<not> nullable left then firstpos left
                            else firstpos left \<union> firstpos right),
               lastpos := (if \<not> nullable right then lastpos right
                           else lastpos left \<union> lastpos right)\<rparr>)\<rparr>)"
| "annotate (UnionNode a l r) m =
     (let m2 = annotate r (annotate l m);
          left = node_attrs m2 (ident l);
          right = node_attrs m2 (ident r)
      in m2\<lparr>node_attrs := (node_attrs m2)
           (a := (node_attrs m2 a)
              \<lparr>nullable := nullable left \<or> nullable right,
               firstpos := firstpos left \<union> firstpos right,
               lastpos := lastpos left \<union> lastpos right\<rparr>)\<rparr>)"
| "annotate (StarNode a l) m =
     (let m1 = annotate l m;
          left = node_attrs m1 (ident l)
      in m1\<lparr>node_attrs := (node_attrs m1)
           (a := (node_attrs m1 a)
              \<lparr>nullable := True, firstpos := firstpos left, lastpos := lastpos left\<rparr>)\<rparr>)"

section \<open>Followpos builder\<close>

text \<open>
  Python does not fix the order in which a \<open>for\<close> loop visits the elements of a set.
  The order is a parameter of the model: an \<open>iteration\<close> gives, for a set, the list
  of its elements in the order of the visit.
\<close>

type_synonym iteration = "nat set \<Rightarrow> nat list"

definition iteration_ok :: "iteration \<Rightarrow> bool" where
  "iteration_ok it = (\<forall>S. finite S \<longrightarrow> set (it S) = S \<and> distinct (it S))"

text \<open>\<open>for pos in ...: followpos_table.setdefault(pos, set()).update(F)\<close>\<close>

fun add_follow :: "nat set \<Rightarrow> nat list \<Rightarrow> (nat \<rightharpoonup> nat set) \<Rightarrow> (nat \<rightharpoonup> nat set)" where
  "add_follow F [] t = t"
| "add_follow F (p # ps) t =
     add_follow F ps (t(p \<mapsto> (case t p of None \<Rightarrow> {} | Some X \<Rightarrow> X) \<union> F))"

fun compute_followpos ::
  "iteration \<Rightarrow> (nat \<Rightarrow> attrs) \<Rightarrow> RegexNode \<Rightarrow> (nat \<rightharpoonup> nat set) \<Rightarrow> (nat \<rightharpoonup> nat set)" where
  "compute_followpos it st (SymbolNode a c) t = t"
| "compute_followpos it st (ConcatNode a l r) t =
     compute_followpos it st r
       (compute_followpos it st l
          (add_follow (firstpos (st (ident r))) (it (lastpos (st (ident l)))) t))"
| "compute_followpos it st (UnionNode a l r) t =
     compute_followpos it st r (compute_followpos it st l t)"
| "compute_followpos it st (StarNode a l) t =
     compute_followpos it st l (add_follow (firstpos (st a)) (it (lastpos (st a))) t)"

section \<open>DFA constructor\<close>

text \<open>The local variables of \<open>construct_dfa\<close>.\<close>

record dfa =
  states :: "(char \<rightharpoonup> nat) list"
  state_pos :: "nat \<rightharpoonup> nat set"
  pos_state :: "nat set \<rightharpoonup> nat"
  queue :: "nat list"
  accepting_states :: "nat set"

text \<open>\<open>any(positions[pos] == '#' for pos in ...)\<close>: stops at the first hit.\<close>

fun any_hash :: "(nat \<rightharpoonup> char) \<Rightarrow> nat list \<Rightarrow> error + bool" where
  "any_hash P [] = Inr False"
| "any_hash P (p # ps) =
     (case P p of
        None \<Rightarrow> Inl KeyError
      | Some c \<Rightarrow> if c = CHR ''#'' then Inr True else any_hash P ps)"

text \<open>
  \<open>symbol_pos_map.setdefault(symbol, set()).update(X)\<close> on a dictionary that keeps
  its keys in the order of their insertion.
\<close>

fun setdefault_update :: "(char \<times> nat set) list \<Rightarrow> char \<Rightarrow> nat set \<Rightarrow> (char \<times> nat set) list" where
  "setdefault_update [] symbol X = [(symbol, {} \<union> X)]"
| "setdefault_update ((k, v) # kvs) symbol X =
     (if k = symbol then (k, v \<union> X) # kvs else (k, v) # setdefault_update kvs symbol X)"

text \<open>The first inner loop: the successor position-set of every symbol of the state.\<close>

fun symbol_pos_map ::
  "(nat \<rightharpoonup> char) \<Rightarrow> (nat \<rightharpoonup> nat set) \<Rightarrow> nat list \<Rightarrow> (char \<times> nat set) list
     \<Rightarrow> error + (char \<times> nat set) list" where
  "symbol_pos_map P F [] spm = Inr spm"
| "symbol_pos_map P F (p # ps) spm =
     (case P p of
        None \<Rightarrow> Inl KeyError
      | Some symbol \<Rightarrow>
          if symbol \<noteq> CHR ''#'' then
            symbol_pos_map P F ps
              (setdefault_update spm symbol (case F p of None \<Rightarrow> {} | Some X \<Rightarrow> X))
          else symbol_pos_map P F ps spm)"

text \<open>The second inner loop: one transition for every symbol, allocating new states.\<close>

fun add_transitions ::
  "iteration \<Rightarrow> (nat \<rightharpoonup> char) \<Rightarrow> nat \<Rightarrow> (char \<times> nat set) list \<Rightarrow> dfa \<Rightarrow> error + dfa" where
  "add_transitions it P state_id [] d = Inr d"
| "add_transitions it P state_id ((symbol, next_pos_set) # rest) d =
     (case
        (case pos_state d next_pos_set of
           Some next_state_id \<Rightarrow> Inr (next_state_id, d)
         | None \<Rightarrow>
             (let next_state_id = length (states d);
                  d1 = d\<lparr>states := states d @ [Map.empty],
                         state_pos := (state_pos d)(next_state_id \<mapsto> next_pos_set),
                         pos_state := (pos_state d)(next_pos_set \<mapsto> next_state_id),
                         queue := queue d @ [next_state_id]\<rparr>
              in case any_hash P (it next_pos_set) of
                   Inl e \<Rightarrow> Inl e
                 | Inr b \<Rightarrow>
                     Inr (next_state_id,
                          if b then d1\<lparr>accepting_states := insert next_state_id (accepting_states d1)\<rparr>
                          else d1)))
      of
        Inl e \<Rightarrow> Inl e
      | Inr (next_state_id, d2) \<Rightarrow>
          if state_id < length (states d2) then
            add_transitions it P state_id rest
              (d2\<lparr>states := (states d2)[state_id := (states d2 ! state_id)(symbol \<mapsto> next_state_id)]\<rparr>)
          else Inl IndexError)"

text \<open>The body of the \<open>while queue\<close> loop, for a non-empty queue.\<close>

definition dfa_body :: "iteration \<Rightarrow> (nat \<rightharpoonup> char) \<Rightarrow> (nat \<rightharpoonup> nat set) \<Rightarrow> dfa \<Rightarrow> error + dfa" where
  "dfa_body it P F d =
     (let state_id = hd (queue d);
          d1 = d\<lparr>queue := tl (queue d)\<rparr>
      in case state_pos d1 state_id of
           None \<Rightarrow> Inl KeyError
         | Some pos_set \<Rightarrow>
             (case symbol_pos_map P F (it pos_set) [] of
                Inl e \<Rightarrow> Inl e
              | Inr spm \<Rightarrow> add_transitions it P state_id spm d1))"

partial_function (option) dfa_loop ::
  "iteration \<Rightarrow> (nat \<rightharpoonup> char) \<Rightarrow> (nat \<rightharpoonup> nat set) \<Rightarrow> dfa \<Rightarrow> (error + dfa) option" where
  "dfa_loop it P F d =
     (if queue d = [] then Some (Inr d)
      else case dfa_body it P F d of
             Inl e \<Rightarrow> Some (Inl e)
           | Inr d1 \<Rightarrow> dfa_loop it P F d1)"

declare dfa_loop.simps [code]

text \<open>The statements of \<open>construct_dfa\<close> before the loop.\<close>

definition dfa_init :: "iteration \<Rightarrow> (nat \<rightharpoonup> char) \<Rightarrow> nat set \<Rightarrow> error + dfa" where
  "dfa_init it P start_pos =
     (let d = \<lparr>states = [Map.empty], state_pos = [0 \<mapsto> start_pos],
               pos_state = [start_pos \<mapsto> 0], queue = [0], accepting_states = {}\<rparr>
      in case any_hash P (it start_pos) of
           Inl e \<Rightarrow> Inl e
         | Inr b \<Rightarrow> Inr (if b then d\<lparr>accepting_states := insert 0 (accepting_states d)\<rparr> else d))"

text \<open>\<open>construct_dfa\<close> up to its \<open>return\<close>: all local variables at the end of the loop.\<close>

definition construct_dfa_run ::
  "iteration \<Rightarrow> (nat \<rightharpoonup> char) \<Rightarrow> (nat \<Rightarrow> attrs) \<Rightarrow> RegexNode \<Rightarrow> (nat \<rightharpoonup> nat set) \<Rightarrow> dfa result" where
  "construct_dfa_run it P st root followpos_table =
     (case dfa_init it P (firstpos (st (ident root))) of
        Inl e \<Rightarrow> Some (Inl e)
      | Inr d \<Rightarrow> dfa_loop it P followpos_table d)"

definition construct_dfa ::
  "iteration \<Rightarrow> (nat \<rightharpoonup> char) \<Rightarrow> (nat \<Rightarrow> attrs) \<Rightarrow> RegexNode \<Rightarrow> (nat \<rightharpoonup> nat set)
     \<Rightarrow> ((char \<rightharpoonup> nat) list \<times> nat set) result" where
  "construct_dfa it P st root followpos_table =
     bind_res (construct_dfa_run it P st root followpos_table)
       (\<lambda>d. Some (Inr (states d, accepting_states d)))"

section \<open>The conversion\<close>

text \<open>
  The callers (\<open>generate_dfa\<close> of the desktop application, \<open>result\<close> of the web
  application) reset the globals, parse, annotate, build the followpos table and
  construct the automaton.  \<open>g\<close> is what the globals hold before the call; all nodes
  are new objects.  \<open>run_pipeline\<close> keeps every intermediate value, \<open>convert\<close> is what
  the callers get.
\<close>

record pipeline =
  root :: RegexNode
  mem :: memory
  followpos_table :: "nat \<rightharpoonup> nat set"
  final :: dfa

definition annotated_memory :: "RegexNode \<Rightarrow> memory" where
  "annotated_memory t =
     annotate t \<lparr>position_counter = 1, positions = Map.empty, node_attrs = (\<lambda>a. new_attrs)\<rparr>"

definition run_pipeline :: "nat \<Rightarrow> iteration \<Rightarrow> globals \<Rightarrow> string \<Rightarrow> pipeline result" where
  "run_pipeline n it g r =
     (let g1 = g\<lparr>position_counter := 1, positions := Map.empty\<rparr>;
          m0 = \<lparr>position_counter = position_counter g1, positions = positions g1,
                node_attrs = (\<lambda>a. new_attrs)\<rparr>
      in bind_res (parse_regex n r)
           (\<lambda>t. let m = annotate t m0;
                    tab = compute_followpos it (node_attrs m) t Map.empty
                in bind_res (construct_dfa_run it (positions m) (node_attrs m) t tab)
                     (\<lambda>d. Some (Inr \<lparr>root = t, mem = m, followpos_table = tab, final = d\<rparr>))))"

definition convert ::
  "nat \<Rightarrow> iteration \<Rightarrow> globals \<Rightarrow> string \<Rightarrow> ((char \<rightharpoonup> nat) list \<times> nat set) result" where
  "convert n it g r =
     bind_res (run_pipeline n it g r) (\<lambda>p. Some (Inr (states (final p), accepting_states (final p))))"

section \<open>Definitions for the verification\<close>

fun idents :: "RegexNode \<Rightarrow> nat set" where
  "idents (SymbolNode a c) = {a}"
| "idents (ConcatNode a l r) = insert a (idents l \<union> idents r)"
| "idents (UnionNode a l r) = insert a (idents l \<union> idents r)"
| "idents (StarNode a l) = insert a (idents l)"

fun leaf_idents :: "RegexNode \<Rightarrow> nat set" where
  "leaf_idents (SymbolNode a c) = {a}"
| "leaf_idents (ConcatNode a l r) = leaf_idents l \<union> leaf_idents r"
| "leaf_idents (UnionNode a l r) = leaf_idents l \<union> leaf_idents r"
| "leaf_idents (StarNode a l) = leaf_idents l"

fun leaves :: "RegexNode \<Rightarrow> nat" where
  "leaves (SymbolNode a c) = 1"
| "leaves (ConcatNode a l r) = leaves l + leaves r"
| "leaves (UnionNode a l r) = leaves l + leaves r"
| "leaves (StarNode a l) = leaves l"

fun symbols :: "RegexNode \<Rightarrow> char set" where
  "symbols (SymbolNode a c) = {c}"
| "symbols (ConcatNode a l r) = symbols l \<union> symbols r"
| "symbols (UnionNode a l r) = symbols l \<union> symbols r"
| "symbols (StarNode a l) = symbols l"

fun unshared :: "RegexNode \<Rightarrow> bool" where
  "unshared (SymbolNode a c) = True"
| "unshared (ConcatNode a l r) =
     (unshared l \<and> unshared r \<and> a \<notin> idents l \<union> idents r \<and> idents l \<inter> idents r = {})"
| "unshared (UnionNode a l r) =
     (unshared l \<and> unshared r \<and> a \<notin> idents l \<union> idents r \<and> idents l \<inter> idents r = {})"
| "unshared (StarNode a l) = (unshared l \<and> a \<notin> idents l)"

fun wf_node :: "RegexNode \<Rightarrow> bool" where
  "wf_node (SymbolNode a c) = True"
| "wf_node (ConcatNode a l r) =
     (wf_node l \<and> wf_node r \<and> a \<notin> idents l \<union> idents r
      \<and> (idents l \<inter> idents r = {} \<or> (case r of StarNode b l' \<Rightarrow> l' = l | _ \<Rightarrow> False)))"
| "wf_node (UnionNode a l r) =
     (wf_node l \<and> wf_node r \<and> a \<notin> idents l \<union> idents r \<and> idents l \<inter> idents r = {})"
| "wf_node (StarNode a l) = (wf_node l \<and> a \<notin> idents l)"

definition parser_ok :: "RegexParser \<Rightarrow> bool" where
  "parser_ok s =
     (current_char s = (if pos s < length (regex s) then Some (regex s ! pos s) else None))"

definition node_ok :: "string \<Rightarrow> nat \<Rightarrow> nat \<Rightarrow> RegexNode \<Rightarrow> bool" where
  "node_ok r lo hi node =
     (wf_node node \<and> (\<forall>a\<in>idents node. lo \<le> a \<and> a < hi) \<and> symbols node \<subseteq> set r
      \<and> (CHR ''+'' \<notin> set r \<longrightarrow> unshared node))"

definition built :: "nat \<Rightarrow> RegexParser \<Rightarrow> (RegexNode \<times> RegexParser) result \<Rightarrow> bool" where
  "built lo s res =
     (case res of
        Some (Inr (node, s1)) \<Rightarrow>
          node_ok (regex s) lo (next_id s1) node \<and> next_id s \<le> next_id s1
          \<and> regex s1 = regex s \<and> parser_ok s1
      | _ \<Rightarrow> True)"

text \<open>What the memory holds for a tree once \<open>annotate\<close> has returned.\<close>

fun annotated :: "(nat \<Rightarrow> attrs) \<Rightarrow> (nat \<rightharpoonup> char) \<Rightarrow> nat \<Rightarrow> nat \<Rightarrow> RegexNode \<Rightarrow> bool" where
  "annotated st P lo hi (SymbolNode a c) =
     (\<exists>p. lo \<le> p \<and> p < hi \<and> position (st a) = Some p \<and> firstpos (st a) = {p}
          \<and> lastpos (st a) = {p} \<and> \<not> nullable (st a) \<and> P p = Some c)"
| "annotated st P lo hi (ConcatNode a l r) =
     (annotated st P lo hi l \<and> annotated st P lo hi r
      \<and> nullable (st a) = (nullable (st (ident l)) \<and> nullable (st (ident r)))
      \<and> firstpos (st a) = (if \<not> nullable (st (ident l)) then firstpos (st (ident l))
                           else firstpos (st (ident l)) \<union> firstpos (st (ident r)))
      \<and> lastpos (st a) = (if \<not> nullable (st (ident r)) then lastpos (st (ident r))
                          else lastpos (st (ident l)) \<union> lastpos (st (ident r))))"
| "annotated st P lo hi (UnionNode a l r) =
     (annotated st P lo hi l \<and> annotated st P lo hi r
      \<and> nullable (st a) = (nullable (st (ident l)) \<or> nullable (st (ident r)))
      \<and> firstpos (st a) = firstpos (st (ident l)) \<union> firstpos (st (ident r))
      \<and> lastpos (st a) = lastpos (st (ident l)) \<union> lastpos (st (ident r)))"
| "annotated st P lo hi (StarNode a l) =
     (annotated st P lo hi l
      \<and> nullable (st a) \<and> firstpos (st a) = firstpos (st (ident l))
      \<and> lastpos (st a) = lastpos (st (ident l)))"

definition leaf_positions :: "(nat \<Rightarrow> attrs) \<Rightarrow> RegexNode \<Rightarrow> nat set" where
  "leaf_positions st t = (\<lambda>a. the (position (st a))) ` leaf_idents t"

inductive_set star_lang :: "string set \<Rightarrow> string set" for A :: "string set" where
  Nil: "[] \<in> star_lang A"
| Step: "xs \<in> A \<Longrightarrow> ys \<in> star_lang A \<Longrightarrow> xs @ ys \<in> star_lang A"

fun lang :: "RegexNode \<Rightarrow> string set" where
  "lang (SymbolNode a c) = {[c]}"
| "lang (ConcatNode a l r) = {xs @ ys | xs ys. xs \<in> lang l \<and> ys \<in> lang r}"
| "lang (UnionNode a l r) = lang l \<union> lang r"
| "lang (StarNode a l) = star_lang (lang l)"

definition table_in :: "nat set \<Rightarrow> (nat \<rightharpoonup> nat set) \<Rightarrow> bool" where
  "table_in U t = (dom t \<subseteq> U \<and> (\<forall>p X. t p = Some X \<longrightarrow> X \<subseteq> U))"

text \<open>The successor position-set of a position-set under a symbol, and the symbols that
  have one.\<close>

definition succ_pos :: "(nat \<rightharpoonup> char) \<Rightarrow> (nat \<rightharpoonup> nat set) \<Rightarrow> nat set \<Rightarrow> char \<Rightarrow> nat set" where
  "succ_pos P F S c =
     (\<Union>p\<in>S. if P p = Some c then (case F p of None \<Rightarrow> {} | Some X \<Rightarrow> X) else {})"

definition syms :: "(nat \<rightharpoonup> char) \<Rightarrow> nat set \<Rightarrow> char set" where
  "syms P S = {c. c \<noteq> CHR ''#'' \<and> (\<exists>p\<in>S. P p = Some c)}"

definition closed_sets :: "(nat \<rightharpoonup> char) \<Rightarrow> (nat \<rightharpoonup> nat set) \<Rightarrow> nat set set \<Rightarrow> bool" where
  "closed_sets P F A =
     (finite A \<and> (\<forall>S\<in>A. finite S \<and> S \<subseteq> dom P \<and> (\<forall>c\<in>syms P S. succ_pos P F S c \<in> A)))"

definition dfa_inv :: "(nat \<rightharpoonup> char) \<Rightarrow> nat set set \<Rightarrow> dfa \<Rightarrow> bool" where
  "dfa_inv P A d =
     (states d \<noteq> []
      \<and> dom (state_pos d) = {..<length (states d)}
      \<and> (\<forall>S i. (pos_state d S = Some i) = (state_pos d i = Some S))
      \<and> (\<forall>i S. state_pos d i = Some S \<longrightarrow> S \<in> A)
      \<and> set (queue d) \<subseteq> {..<length (states d)}
      \<and> accepting_states d = {i. \<exists>S. state_pos d i = Some S \<and> (\<exists>q\<in>S. P q = Some CHR ''#'')})"

definition trans_ok :: "(nat \<rightharpoonup> char) \<Rightarrow> (nat \<rightharpoonup> nat set) \<Rightarrow> dfa \<Rightarrow> nat \<Rightarrow> char set \<Rightarrow> bool" where
  "trans_ok P F d j K =
     ((\<forall>c. (states d ! j) c =
            (if c \<in> K then pos_state d (succ_pos P F (the (state_pos d j)) c) else None))
      \<and> (\<forall>c\<in>K. pos_state d (succ_pos P F (the (state_pos d j)) c) \<noteq> None))"

definition trans_inv :: "(nat \<rightharpoonup> char) \<Rightarrow> (nat \<rightharpoonup> nat set) \<Rightarrow> dfa \<Rightarrow> nat set \<Rightarrow> bool" where
  "trans_inv P F d E =
     (distinct (queue d)
      \<and> (\<forall>j\<in>set (queue d). states d ! j = Map.empty)
      \<and> (\<forall>j<length (states d). j \<notin> set (queue d) \<longrightarrow> j \<notin> E \<longrightarrow>
            trans_ok P F d j (syms P (the (state_pos d j)))))"

definition dfa_measure :: "nat set set \<Rightarrow> dfa \<Rightarrow> nat" where
  "dfa_measure A d = card (A - dom (pos_state d)) + length (queue d)"

definition new_state :: "nat set \<Rightarrow> bool \<Rightarrow> dfa \<Rightarrow> dfa" where
  "new_state X b d =
     d\<lparr>states := states d @ [Map.empty],
       state_pos := (state_pos d)(length (states d) \<mapsto> X),
       pos_state := (pos_state d)(X \<mapsto> length (states d)),
       queue := queue d @ [length (states d)],
       accepting_states := (if b then insert (length (states d)) (accepting_states d)
                            else accepting_states d)\<rparr>"

definition set_transition :: "nat \<Rightarrow> char \<Rightarrow> nat \<Rightarrow> dfa \<Rightarrow> dfa" where
  "set_transition state_id symbol next_state_id d =
     d\<lparr>states := (states d)[state_id := (states d ! state_id)(symbol \<mapsto> next_state_id)]\<rparr>"

definition grouped :: "(nat \<rightharpoonup> char) \<Rightarrow> (nat \<rightharpoonup> nat set) \<Rightarrow> nat set \<Rightarrow> (char \<times> nat set) list \<Rightarrow> bool" where
  "grouped P F Y kvs =
     (distinct (map fst kvs)
      \<and> map_of kvs = (\<lambda>c. if c \<in> syms P Y then Some (succ_pos P F Y c) else None))"

text \<open>What \<open>construct_dfa\<close> has built when its loop is left.\<close>

definition dfa_result :: "(nat \<rightharpoonup> char) \<Rightarrow> (nat \<rightharpoonup> nat set) \<Rightarrow> nat set set \<Rightarrow> nat set \<Rightarrow> dfa \<Rightarrow> bool" where
  "dfa_result P F A S d =
     (dfa_inv P A d \<and> trans_inv P F d {} \<and> queue d = [] \<and> state_pos d 0 = Some S)"

text \<open>The memory after the annotation of a parsed tree.\<close>

definition fresh_memory :: memory where
  "fresh_memory = \<lparr>position_counter = 1, positions = Map.empty, node_attrs = (\<lambda>a. new_attrs)\<rparr>"

text \<open>The values the module gives its globals when it is loaded.\<close>

definition module_globals :: globals where
  "module_globals = \<lparr>position_counter = 1, positions = Map.empty\<rparr>"

definition tree_a_star :: RegexNode where
  "tree_a_star = ConcatNode 3 (StarNode 1 (SymbolNode 0 CHR ''a'')) (SymbolNode 2 CHR ''#'')"

definition tree_hash :: RegexNode where
  "tree_hash = ConcatNode 2 (SymbolNode 0 CHR ''#'') (SymbolNode 1 CHR ''#'')"

definition tree_a_plus :: RegexNode where
  "tree_a_plus =
     ConcatNode 4
       (ConcatNode 2 (SymbolNode 0 CHR ''a'') (StarNode 1 (SymbolNode 0 CHR ''a'')))
       (SymbolNode 3 CHR ''#'')"

definition tree_abb :: RegexNode where
  "tree_abb =
     ConcatNode 11
       (ConcatNode 9
         (ConcatNode 7
           (ConcatNode 5
             (StarNode 3 (UnionNode 2 (SymbolNode 0 CHR ''a'') (SymbolNode 1 CHR ''b'')))
             (SymbolNode 4 CHR ''a''))
           (SymbolNode 6 CHR ''b''))
         (SymbolNode 8 CHR ''b''))
       (SymbolNode 10 CHR ''#'')"

text \<open>
  The spec's invariant on position ids, in its words: the ids held by the leaves are
  unique and dense over \<open>1..n\<close>, and the position table has exactly the keys \<open>1..n\<close>.
\<close>

definition spec_positions_dense :: "RegexNode \<Rightarrow> memory \<Rightarrow> nat \<Rightarrow> bool" where
  "spec_positions_dense t m n =
     (inj_on (\<lambda>a. position (node_attrs m a)) (leaf_idents t)
      \<and> leaf_positions (node_attrs m) t = {1..n}
      \<and> dom (positions m) = {1..n})"

section \<open>Lemmas\<close>

lemmas parser_eval =
  parse_regex_def parse_def RegexParser_init_def advance_def bind_res_def isalnum_def

lemma ident_in_idents [simp]: "ident t \<in> idents t"
  by (cases t) auto

lemma leaf_idents_subset: "leaf_idents t \<subseteq> idents t"
  by (induction t) auto

lemma unshared_wf: "unshared t \<Longrightarrow> wf_node t"
  by (induction t) auto

lemma parser_ok_init: "parser_ok (RegexParser_init r)"
  by (cases r) (auto simp: parser_ok_def RegexParser_init_def)

lemma parser_ok_advance: "parser_ok (advance s)"
  by (simp add: parser_ok_def advance_def)

lemma advance_fields [simp]:
  "regex (advance s) = regex s" "next_id (advance s) = next_id s"
  by (simp_all add: advance_def)

lemma parser_ok_next_id [simp]: "parser_ok (s\<lparr>next_id := k\<rparr>) = parser_ok s"
  by (simp add: parser_ok_def)

lemma current_char_in_regex: "parser_ok s \<Longrightarrow> current_char s = Some c \<Longrightarrow> c \<in> set (regex s)"
  by (auto simp: parser_ok_def split: if_splits)

lemma built_None [simp]: "built lo s None"
  by (simp add: built_def)

lemma built_Inl [simp]: "built lo s (Some (Inl e))"
  by (simp add: built_def)

lemma built_bind:
  assumes "built lo s m"
    and "\<And>node s1. m = Some (Inr (node, s1)) \<Longrightarrow> node_ok (regex s) lo (next_id s1) node \<Longrightarrow>
           next_id s \<le> next_id s1 \<Longrightarrow> regex s1 = regex s \<Longrightarrow> parser_ok s1 \<Longrightarrow> built lo' s (f (node, s1))"
  shows "built lo' s (bind_res m f)"
  using assms by (auto simp: bind_res_def built_def split: option.splits sum.splits)

lemma built_shift:
  "built lo s1 res \<Longrightarrow> next_id s \<le> next_id s1 \<Longrightarrow> regex s1 = regex s \<Longrightarrow> built lo s res"
  by (auto simp: built_def split: option.splits sum.splits)

lemma node_ok_mono: "node_ok r lo hi node \<Longrightarrow> lo' \<le> lo \<Longrightarrow> hi \<le> hi' \<Longrightarrow> node_ok r lo' hi' node"
  by (auto simp: node_ok_def)

lemma node_ok_bounds: "node_ok r lo hi l \<Longrightarrow> lo \<le> ident l \<and> ident l < hi"
  using ident_in_idents [of l] by (auto simp: node_ok_def simp del: ident_in_idents)

lemma node_ok_range: "node_ok r lo hi l \<Longrightarrow> a \<in> idents l \<Longrightarrow> lo \<le> a \<and> a < hi"
  by (simp add: node_ok_def)

lemma node_ok_disjoint:
  assumes "node_ok r lo k l" "node_ok r k hi x"
  shows "idents l \<inter> idents x = {}"
proof -
  have "a \<notin> idents x" if "a \<in> idents l" for a
    using node_ok_range [OF assms(1) that] node_ok_range [OF assms(2), of a] by auto
  then show ?thesis by blast
qed

lemma node_ok_fresh: "node_ok r lo hi l \<Longrightarrow> hi \<le> a \<Longrightarrow> a \<notin> idents l"
  using node_ok_range [of r lo hi l a] by auto

lemma node_ok_Union:
  assumes "node_ok r lo k l" "node_ok r k hi x"
  shows "node_ok r lo (Suc hi) (UnionNode hi l x)"
proof -
  have le: "lo \<le> k" "k \<le> hi"
    using node_ok_bounds [OF assms(1)] node_ok_bounds [OF assms(2)] by auto
  have fr: "hi \<notin> idents l" "hi \<notin> idents x"
    using node_ok_fresh [OF assms(1), of hi] node_ok_fresh [OF assms(2), of hi] le by auto
  have rg: "lo \<le> a \<and> a < Suc hi" if "a \<in> insert hi (idents l \<union> idents x)" for a
    using that node_ok_range [OF assms(1), of a] node_ok_range [OF assms(2), of a] le by auto
  show ?thesis
    unfolding node_ok_def using assms fr rg node_ok_disjoint [OF assms]
    by (simp add: node_ok_def)
qed

lemma node_ok_Concat:
  assumes "node_ok r lo k l" "node_ok r k hi x"
  shows "node_ok r lo (Suc hi) (ConcatNode hi l x)"
proof -
  have le: "lo \<le> k" "k \<le> hi"
    using node_ok_bounds [OF assms(1)] node_ok_bounds [OF assms(2)] by auto
  have fr: "hi \<notin> idents l" "hi \<notin> idents x"
    using node_ok_fresh [OF assms(1), of hi] node_ok_fresh [OF assms(2), of hi] le by auto
  have rg: "lo \<le> a \<and> a < Suc hi" if "a \<in> insert hi (idents l \<union> idents x)" for a
    using that node_ok_range [OF assms(1), of a] node_ok_range [OF assms(2), of a] le by auto
  show ?thesis
    unfolding node_ok_def using assms fr rg node_ok_disjoint [OF assms]
    by (simp add: node_ok_def)
qed

lemma node_ok_Star:
  assumes "node_ok r lo hi l"
  shows "node_ok r lo (Suc hi) (StarNode hi l)"
proof -
  have le: "lo \<le> hi"
    using node_ok_bounds [OF assms] by auto
  have fr: "hi \<notin> idents l"
    using node_ok_fresh [OF assms, of hi] by auto
  have rg: "lo \<le> a \<and> a < Suc hi" if "a \<in> insert hi (idents l)" for a
    using that node_ok_range [OF assms, of a] le by auto
  show ?thesis
    unfolding node_ok_def using assms fr rg
    by (simp add: node_ok_def)
qed

lemma node_ok_Plus:
  assumes "node_ok r lo hi l" "CHR ''+'' \<in> set r"
  shows "node_ok r lo (Suc (Suc hi)) (ConcatNode (Suc hi) l (StarNode hi l))"
proof -
  have le: "lo \<le> hi"
    using node_ok_bounds [OF assms(1)] by auto
  have fr: "hi \<notin> idents l" "Suc hi \<notin> idents l"
    using node_ok_fresh [OF assms(1), of hi] node_ok_fresh [OF assms(1), of "Suc hi"] by auto
  have rg: "lo \<le> a \<and> a < Suc (Suc hi)" if "a \<in> insert (Suc hi) (insert hi (idents l))" for a
    using that node_ok_range [OF assms(1), of a] le by auto
  show ?thesis
    unfolding node_ok_def using assms fr rg
    by (simp add: node_ok_def)
qed

lemma node_ok_Symbol:
  "c \<in> set r \<Longrightarrow> node_ok r k (Suc k) (SymbolNode k c)"
  by (simp add: node_ok_def)

lemma parser_built:
  "(\<forall>s. parser_ok s \<longrightarrow> built (next_id s) s (expression n s))
   \<and> (\<forall>s node lo. parser_ok s \<longrightarrow> node_ok (regex s) lo (next_id s) node \<longrightarrow> built lo s (expression_loop n node s))
   \<and> (\<forall>s. parser_ok s \<longrightarrow> built (next_id s) s (term_rule n s))
   \<and> (\<forall>s node lo. parser_ok s \<longrightarrow> node_ok (regex s) lo (next_id s) node \<longrightarrow> built lo s (term_loop n node s))
   \<and> (\<forall>s. parser_ok s \<longrightarrow> built (next_id s) s (factor n s))
   \<and> (\<forall>s node lo. parser_ok s \<longrightarrow> node_ok (regex s) lo (next_id s) node \<longrightarrow> built lo s (factor_loop n node s))
   \<and> (\<forall>s. parser_ok s \<longrightarrow> built (next_id s) s (base n s))"
proof (induction n)
  case 0
  show ?case by simp
next
  case (Suc n)
  then have e: "\<And>s. parser_ok s \<Longrightarrow> built (next_id s) s (expression n s)"
    and el: "\<And>s node lo. parser_ok s \<Longrightarrow> node_ok (regex s) lo (next_id s) node \<Longrightarrow> built lo s (expression_loop n node s)"
    and t: "\<And>s. parser_ok s \<Longrightarrow> built (next_id s) s (term_rule n s)"
    and tl: "\<And>s node lo. parser_ok s \<Longrightarrow> node_ok (regex s) lo (next_id s) node \<Longrightarrow> built lo s (term_loop n node s)"
    and f: "\<And>s. parser_ok s \<Longrightarrow> built (next_id s) s (factor n s)"
    and fl: "\<And>s node lo. parser_ok s \<Longrightarrow> node_ok (regex s) lo (next_id s) node \<Longrightarrow> built lo s (factor_loop n node s)"
    and b: "\<And>s. parser_ok s \<Longrightarrow> built (next_id s) s (base n s)"
    by blast+
  have E: "built (next_id s) s (expression (Suc n) s)" if ok: "parser_ok s" for s
    unfolding expression.simps
    by (rule built_bind [OF t [OF ok]]) (auto intro!: built_shift [OF el])
  have EL: "built lo s (expression_loop (Suc n) node s)"
    if ok: "parser_ok s" and nd: "node_ok (regex s) lo (next_id s) node" for s node lo
  proof (cases "current_char s = Some CHR ''|''")
    case True
    have "built lo s (bind_res (term_rule n (advance s))
          (\<lambda>(r, s1). expression_loop n (UnionNode (next_id s1) node r) (s1\<lparr>next_id := next_id s1 + 1\<rparr>)))"
    proof (rule built_bind [OF built_shift [OF t [OF parser_ok_advance]]], simp, simp, clarsimp)
      fix x s1
      assume "node_ok (regex s) (next_id s) (next_id s1) x" "next_id s \<le> next_id s1"
        "regex s1 = regex s" "parser_ok s1"
      then show "built lo s (expression_loop n (UnionNode (next_id s1) node x) (s1\<lparr>next_id := Suc (next_id s1)\<rparr>))"
        using nd by (intro built_shift [OF el]) (auto intro: node_ok_Union)
    qed
    with True show ?thesis by simp
  next
    case False
    with ok nd show ?thesis by (simp add: built_def)
  qed
  have T: "built (next_id s) s (term_rule (Suc n) s)" if ok: "parser_ok s" for s
    unfolding term_rule.simps
    by (rule built_bind [OF f [OF ok]]) (auto intro!: built_shift [OF tl])
  have TL: "built lo s (term_loop (Suc n) node s)"
    if ok: "parser_ok s" and nd: "node_ok (regex s) lo (next_id s) node" for s node lo
  proof (cases "current_char s \<noteq> None \<and> the (current_char s) \<notin> set [CHR ''|'', CHR '')'']")
    case True
    have "built lo s (bind_res (factor n s)
          (\<lambda>(r, s1). term_loop n (ConcatNode (next_id s1) node r) (s1\<lparr>next_id := next_id s1 + 1\<rparr>)))"
    proof (rule built_bind [OF f [OF ok]], clarsimp)
      fix x s1
      assume "node_ok (regex s) (next_id s) (next_id s1) x" "next_id s \<le> next_id s1"
        "regex s1 = regex s" "parser_ok s1"
      then show "built lo s (term_loop n (ConcatNode (next_id s1) node x) (s1\<lparr>next_id := Suc (next_id s1)\<rparr>))"
        using nd by (intro built_shift [OF tl]) (auto intro: node_ok_Concat)
    qed
    with True show ?thesis by simp
  next
    case False
    with ok nd show ?thesis by (auto simp: built_def)
  qed
  have F: "built (next_id s) s (factor (Suc n) s)" if ok: "parser_ok s" for s
    unfolding factor.simps
    by (rule built_bind [OF b [OF ok]]) (auto intro!: built_shift [OF fl])
  have FL: "built lo s (factor_loop (Suc n) node s)"
    if ok: "parser_ok s" and nd: "node_ok (regex s) lo (next_id s) node" for s node lo
  proof -
    consider (star) "current_char s = Some CHR ''*''"
      | (plus) "current_char s = Some CHR ''+''"
      | (other) "current_char s \<noteq> Some CHR ''*''" "current_char s \<noteq> Some CHR ''+''"
      by blast
    then show ?thesis
    proof cases
      case star
      have "built lo s (factor_loop n (StarNode (next_id s) node) ((advance s)\<lparr>next_id := Suc (next_id s)\<rparr>))"
        using nd by (intro built_shift [OF fl]) (auto intro: node_ok_Star parser_ok_advance)
      with star show ?thesis by (simp add: Let_def)
    next
      case plus
      then have "CHR ''+'' \<in> set (regex s)"
        using ok by (simp add: current_char_in_regex)
      then have "built lo s (factor_loop n (ConcatNode (Suc (next_id s)) node (StarNode (next_id s) node))
            ((advance s)\<lparr>next_id := Suc (Suc (next_id s))\<rparr>))"
        using nd by (intro built_shift [OF fl]) (auto intro: node_ok_Plus parser_ok_advance)
      with plus show ?thesis by (simp add: Let_def)
    next
      case other
      with ok nd show ?thesis by (simp add: built_def)
    qed
  qed
  have B: "built (next_id s) s (base (Suc n) s)" if ok: "parser_ok s" for s
  proof (cases "current_char s = Some CHR ''(''")
    case True
    have "built (next_id s) s (bind_res (expression n (advance s))
          (\<lambda>(node, s1). if current_char s1 \<noteq> Some CHR '')'' then Some (Inl MismatchedParentheses)
             else Some (Inr (node, advance s1))))"
      by (rule built_bind [OF built_shift [OF e [OF parser_ok_advance]]])
         (auto simp: built_def parser_ok_advance)
    with True show ?thesis by simp
  next
    case False
    show ?thesis
    proof (cases "current_char s")
      case None
      then show ?thesis by simp
    next
      case (Some c)
      then have "c \<in> set (regex s)"
        using ok by (simp add: current_char_in_regex)
      with Some False show ?thesis
        by (auto simp: built_def Let_def parser_ok_advance intro: node_ok_Symbol)
    qed
  qed
  show ?case using E EL T TL F FL B by blast
qed

lemma parse_regex_shape:
  assumes "parse_regex n r = Some (Inr t)"
  shows "\<exists>e k. t = ConcatNode (Suc k) e (SymbolNode k CHR ''#'') \<and> node_ok r 0 k e"
proof -
  have b: "built 0 (RegexParser_init r) (expression n (RegexParser_init r))"
    using parser_built [of n] parser_ok_init [of r]
    by (metis RegexParser.select_convs(4) RegexParser_init_def)
  obtain e s1 where e: "expression n (RegexParser_init r) = Some (Inr (e, s1))"
    and t: "t = ConcatNode (Suc (next_id s1)) e (SymbolNode (next_id s1) CHR ''#'')"
    using assms
    by (auto simp: parse_regex_def parse_def bind_res_def split: option.splits sum.splits prod.splits)
  from b e have "node_ok r 0 (next_id s1) e"
    by (simp add: built_def RegexParser_init_def)
  with t show ?thesis by blast
qed

subsection \<open>annotate\<close>

lemma annotate_counter: "position_counter (annotate t m) = position_counter m + leaves t"
  by (induction t arbitrary: m) (simp_all add: Let_def)

lemma annotate_frame: "a \<notin> idents t \<Longrightarrow> node_attrs (annotate t m) a = node_attrs m a"
  by (induction t arbitrary: m) (simp_all add: Let_def)

lemma annotate_positions_old:
  "p < position_counter m \<Longrightarrow> positions (annotate t m) p = positions m p"
  by (induction t arbitrary: m) (simp_all add: Let_def annotate_counter)

lemma annotate_positions_dom:
  "dom (positions (annotate t m)) =
     dom (positions m) \<union> {position_counter m ..< position_counter m + leaves t}"
proof (induction t arbitrary: m)
  case (SymbolNode a c)
  show ?case by auto
next
  case (ConcatNode a l r)
  then show ?case by (auto simp: Let_def annotate_counter)
next
  case (UnionNode a l r)
  then show ?case by (auto simp: Let_def annotate_counter)
next
  case (StarNode a l)
  then show ?case by (simp add: Let_def)
qed

lemma annotated_mono:
  "annotated st P lo hi t \<Longrightarrow> lo' \<le> lo \<Longrightarrow> hi \<le> hi' \<Longrightarrow> annotated st P lo' hi' t"
proof (induction t)
  case (SymbolNode a c)
  then obtain p where "lo \<le> p" "p < hi" "position (st a) = Some p" "firstpos (st a) = {p}"
    "lastpos (st a) = {p}" "\<not> nullable (st a)" "P p = Some c"
    by auto
  moreover have "lo' \<le> p" "p < hi'"
    using SymbolNode.prems(2,3) calculation(1,2) by auto
  ultimately show ?case by auto
qed auto

lemma annotated_local:
  "annotated st P lo hi t \<Longrightarrow> (\<And>a. a \<in> idents t \<Longrightarrow> st' a = st a) \<Longrightarrow>
   (\<And>p. lo \<le> p \<Longrightarrow> p < hi \<Longrightarrow> P' p = P p) \<Longrightarrow> annotated st' P' lo hi t"
  by (induction t) auto

lemma annotated_Concat_step:
  assumes "annotated st P lo hi l" "annotated st P lo hi r" "a \<notin> idents l" "a \<notin> idents r"
  shows "annotated
     (st(a := (st a)
          \<lparr>nullable := nullable (st (ident l)) \<and> nullable (st (ident r)),
           firstpos := (if \<not> nullable (st (ident l)) then firstpos (st (ident l))
                        else firstpos (st (ident l)) \<union> firstpos (st (ident r))),
           lastpos := (if \<not> nullable (st (ident r)) then lastpos (st (ident r))
                       else lastpos (st (ident l)) \<union> lastpos (st (ident r)))\<rparr>))
     P lo hi (ConcatNode a l r)" (is "annotated ?st' P lo hi _")
proof -
  have ne: "ident l \<noteq> a" "ident r \<noteq> a"
    using assms(3,4) ident_in_idents by metis+
  have "annotated ?st' P lo hi l"
    by (rule annotated_local [OF assms(1)]) (use assms(3) in auto)
  moreover have "annotated ?st' P lo hi r"
    by (rule annotated_local [OF assms(2)]) (use assms(4) in auto)
  ultimately show ?thesis
    using ne by simp
qed

lemma annotated_Union_step:
  assumes "annotated st P lo hi l" "annotated st P lo hi r" "a \<notin> idents l" "a \<notin> idents r"
  shows "annotated
     (st(a := (st a)
          \<lparr>nullable := nullable (st (ident l)) \<or> nullable (st (ident r)),
           firstpos := firstpos (st (ident l)) \<union> firstpos (st (ident r)),
           lastpos := lastpos (st (ident l)) \<union> lastpos (st (ident r))\<rparr>))
     P lo hi (UnionNode a l r)" (is "annotated ?st' P lo hi _")
proof -
  have ne: "ident l \<noteq> a" "ident r \<noteq> a"
    using assms(3,4) ident_in_idents by metis+
  have "annotated ?st' P lo hi l"
    by (rule annotated_local [OF assms(1)]) (use assms(3) in auto)
  moreover have "annotated ?st' P lo hi r"
    by (rule annotated_local [OF assms(2)]) (use assms(4) in auto)
  ultimately show ?thesis
    using ne by simp
qed

lemma annotated_Star_step:
  assumes "annotated st P lo hi l" "a \<notin> idents l"
  shows "annotated
     (st(a := (st a)
          \<lparr>nullable := True, firstpos := firstpos (st (ident l)),
           lastpos := lastpos (st (ident l))\<rparr>))
     P lo hi (StarNode a l)" (is "annotated ?st' P lo hi _")
proof -
  have ne: "ident l \<noteq> a"
    using assms(2) ident_in_idents by metis
  have "annotated ?st' P lo hi l"
    by (rule annotated_local [OF assms(1)]) (use assms(2) in auto)
  then show ?thesis
    using ne by simp
qed

text \<open>
  Both children of a node are annotated in the memory that the visit of the second
  child leaves: the second visit touches the first child only where the two share
  objects, and then it visits the whole first child again.
\<close>

lemma annotated_children:
  assumes l1: "annotated (node_attrs (annotate l m)) (positions (annotate l m))
                 (position_counter m) (position_counter (annotate l m)) l"
    and r2: "annotated (node_attrs (annotate r (annotate l m))) (positions (annotate r (annotate l m)))
                 (position_counter (annotate l m)) (position_counter (annotate r (annotate l m))) r"
    and sh: "idents l \<inter> idents r = {} \<or> (\<exists>b. r = StarNode b l)"
  shows "annotated (node_attrs (annotate r (annotate l m))) (positions (annotate r (annotate l m)))
           (position_counter m) (position_counter (annotate r (annotate l m))) l
         \<and> annotated (node_attrs (annotate r (annotate l m))) (positions (annotate r (annotate l m)))
           (position_counter m) (position_counter (annotate r (annotate l m))) r"
proof -
  let ?m1 = "annotate l m" and ?m2 = "annotate r (annotate l m)"
  have c: "position_counter m \<le> position_counter ?m1" "position_counter ?m1 \<le> position_counter ?m2"
    by (simp_all add: annotate_counter)
  have r: "annotated (node_attrs ?m2) (positions ?m2) (position_counter m) (position_counter ?m2) r"
    by (rule annotated_mono [OF r2 c(1) order_refl])
  have l: "annotated (node_attrs ?m2) (positions ?m2) (position_counter m) (position_counter ?m2) l"
  proof (cases "idents l \<inter> idents r = {}")
    case True
    have "annotated (node_attrs ?m2) (positions ?m2) (position_counter m) (position_counter ?m1) l"
    proof (rule annotated_local [OF l1])
      fix b assume "b \<in> idents l"
      then have "b \<notin> idents r" using True by auto
      then show "node_attrs ?m2 b = node_attrs ?m1 b"
        by (simp add: annotate_frame)
    next
      fix p assume "p < position_counter ?m1"
      then show "positions ?m2 p = positions ?m1 p"
        by (simp add: annotate_positions_old)
    qed
    then show ?thesis
      by (rule annotated_mono [OF _ order_refl c(2)])
  next
    case False
    then obtain b where "r = StarNode b l"
      using sh by auto
    with r show ?thesis by simp
  qed
  from l r show ?thesis ..
qed

lemma annotate_Concat_fields:
  "node_attrs (annotate (ConcatNode a l r) m) =
     (node_attrs (annotate r (annotate l m)))
       (a := (node_attrs (annotate r (annotate l m)) a)
          \<lparr>nullable := nullable (node_attrs (annotate r (annotate l m)) (ident l))
                        \<and> nullable (node_attrs (annotate r (annotate l m)) (ident r)),
           firstpos := (if \<not> nullable (node_attrs (annotate r (annotate l m)) (ident l))
                        then firstpos (node_attrs (annotate r (annotate l m)) (ident l))
                        else firstpos (node_attrs (annotate r (annotate l m)) (ident l))
                             \<union> firstpos (node_attrs (annotate r (annotate l m)) (ident r))),
           lastpos := (if \<not> nullable (node_attrs (annotate r (annotate l m)) (ident r))
                       then lastpos (node_attrs (annotate r (annotate l m)) (ident r))
                       else lastpos (node_attrs (annotate r (annotate l m)) (ident l))
                            \<union> lastpos (node_attrs (annotate r (annotate l m)) (ident r)))\<rparr>)"
  "positions (annotate (ConcatNode a l r) m) = positions (annotate r (annotate l m))"
  "position_counter (annotate (ConcatNode a l r) m) = position_counter (annotate r (annotate l m))"
  by (simp_all add: Let_def)

lemma annotate_Union_fields:
  "node_attrs (annotate (UnionNode a l r) m) =
     (node_attrs (annotate r (annotate l m)))
       (a := (node_attrs (annotate r (annotate l m)) a)
          \<lparr>nullable := nullable (node_attrs (annotate r (annotate l m)) (ident l))
                        \<or> nullable (node_attrs (annotate r (annotate l m)) (ident r)),
           firstpos := firstpos (node_attrs (annotate r (annotate l m)) (ident l))
                       \<union> firstpos (node_attrs (annotate r (annotate l m)) (ident r)),
           lastpos := lastpos (node_attrs (annotate r (annotate l m)) (ident l))
                      \<union> lastpos (node_attrs (annotate r (annotate l m)) (ident r))\<rparr>)"
  "positions (annotate (UnionNode a l r) m) = positions (annotate r (annotate l m))"
  "position_counter (annotate (UnionNode a l r) m) = position_counter (annotate r (annotate l m))"
  by (simp_all add: Let_def)

lemma annotate_Star_fields:
  "node_attrs (annotate (StarNode a l) m) =
     (node_attrs (annotate l m))
       (a := (node_attrs (annotate l m) a)
          \<lparr>nullable := True, firstpos := firstpos (node_attrs (annotate l m) (ident l)),
           lastpos := lastpos (node_attrs (annotate l m) (ident l))\<rparr>)"
  "positions (annotate (StarNode a l) m) = positions (annotate l m)"
  "position_counter (annotate (StarNode a l) m) = position_counter (annotate l m)"
  by (simp_all add: Let_def)

lemma annotate_annotated:
  "wf_node t \<Longrightarrow>
   annotated (node_attrs (annotate t m)) (positions (annotate t m))
     (position_counter m) (position_counter (annotate t m)) t"
proof (induction t arbitrary: m)
  case (SymbolNode a c)
  show ?case by simp
next
  case (ConcatNode a l r)
  have wf: "wf_node l" "wf_node r" "a \<notin> idents l" "a \<notin> idents r"
    "idents l \<inter> idents r = {} \<or> (\<exists>b. r = StarNode b l)"
    using ConcatNode.prems by (auto split: RegexNode.splits)
  note ch = annotated_children [OF ConcatNode.IH(1) [OF wf(1)] ConcatNode.IH(2) [OF wf(2)] wf(5)]
  show ?case
    unfolding annotate_Concat_fields
    by (rule annotated_Concat_step [OF conjunct1 [OF ch] conjunct2 [OF ch] wf(3,4)])
next
  case (UnionNode a l r)
  have wf: "wf_node l" "wf_node r" "a \<notin> idents l" "a \<notin> idents r"
    "idents l \<inter> idents r = {} \<or> (\<exists>b. r = StarNode b l)"
    using UnionNode.prems by auto
  note ch = annotated_children [OF UnionNode.IH(1) [OF wf(1)] UnionNode.IH(2) [OF wf(2)] wf(5)]
  show ?case
    unfolding annotate_Union_fields
    by (rule annotated_Union_step [OF conjunct1 [OF ch] conjunct2 [OF ch] wf(3,4)])
next
  case (StarNode a l)
  have wf: "wf_node l" "a \<notin> idents l"
    using StarNode.prems by auto
  show ?case
    unfolding annotate_Star_fields
    by (rule annotated_Star_step [OF StarNode.IH [OF wf(1)] wf(2)])
qed

lemma leaf_positions_simps [simp]:
  "leaf_positions st (SymbolNode a c) = {the (position (st a))}"
  "leaf_positions st (ConcatNode a l r) = leaf_positions st l \<union> leaf_positions st r"
  "leaf_positions st (UnionNode a l r) = leaf_positions st l \<union> leaf_positions st r"
  "leaf_positions st (StarNode a l) = leaf_positions st l"
  by (auto simp: leaf_positions_def)

lemma finite_leaf_idents [simp]: "finite (leaf_idents t)"
  by (induction t) auto

lemma finite_leaf_positions [simp]: "finite (leaf_positions st t)"
  by (simp add: leaf_positions_def)

lemma card_leaf_idents: "card (leaf_idents t) \<le> leaves t"
proof (induction t)
  case (ConcatNode a l r)
  then show ?case using card_Un_le [of "leaf_idents l" "leaf_idents r"] by simp
next
  case (UnionNode a l r)
  then show ?case using card_Un_le [of "leaf_idents l" "leaf_idents r"] by simp
qed auto

lemma card_leaf_positions: "card (leaf_positions st t) \<le> card (leaf_idents t)"
  by (simp add: leaf_positions_def card_image_le)

lemma annotated_firstpos:
  "annotated st P lo hi t \<Longrightarrow> firstpos (st (ident t)) \<subseteq> leaf_positions st t"
  by (induction t) (auto split: if_splits)

lemma annotated_lastpos:
  "annotated st P lo hi t \<Longrightarrow> lastpos (st (ident t)) \<subseteq> leaf_positions st t"
  by (induction t) (auto split: if_splits)

lemma annotated_leaf_range:
  "annotated st P lo hi t \<Longrightarrow> p \<in> leaf_positions st t \<Longrightarrow> lo \<le> p \<and> p < hi"
  by (induction t) auto

lemma annotated_leaf_symbol:
  "annotated st P lo hi t \<Longrightarrow> p \<in> leaf_positions st t \<Longrightarrow> \<exists>c\<in>symbols t. P p = Some c"
  by (induction t) auto

lemma annotated_leaf_holds:
  "annotated st P lo hi t \<Longrightarrow> a \<in> leaf_idents t \<Longrightarrow>
   \<exists>p. position (st a) = Some p \<and> lo \<le> p \<and> p < hi"
  by (induction t) auto

lemma annotated_nullable:
  "annotated st P lo hi t \<Longrightarrow> nullable (st (ident t)) = ([] \<in> lang t)"
  by (induction t) (auto intro: star_lang.Nil)

subsection \<open>followpos\<close>

lemma add_follow_eq:
  "add_follow F xs t =
     (\<lambda>p. if p \<in> set xs then Some ((case t p of None \<Rightarrow> {} | Some X \<Rightarrow> X) \<union> F) else t p)"
proof (induction xs arbitrary: t)
  case Nil
  show ?case by simp
next
  case (Cons x xs)
  show ?case
    by (rule ext) (auto simp: Cons.IH)
qed

lemma iteration_ok_set: "iteration_ok it \<Longrightarrow> finite S \<Longrightarrow> set (it S) = S"
  by (simp add: iteration_ok_def)

lemma add_follow_dom:
  "dom (add_follow F xs t) = dom t \<union> set xs"
  by (auto simp: add_follow_eq split: if_splits)

lemma add_follow_values:
  "add_follow F xs t p = Some X \<Longrightarrow> X \<subseteq> (case t p of None \<Rightarrow> {} | Some Y \<Rightarrow> Y) \<union> F"
  by (auto simp: add_follow_eq split: if_splits option.splits)

lemma table_in_add_follow:
  "table_in U t \<Longrightarrow> set xs \<subseteq> U \<Longrightarrow> F \<subseteq> U \<Longrightarrow> table_in U (add_follow F xs t)"
  unfolding table_in_def add_follow_dom
  by (auto simp: add_follow_eq split: if_splits option.splits)

lemma annotated_finite:
  assumes "annotated st P lo hi t"
  shows "finite (firstpos (st (ident t)))" "finite (lastpos (st (ident t)))"
  using annotated_firstpos [OF assms] annotated_lastpos [OF assms]
  by (auto intro: finite_subset)

lemma compute_followpos_table_in:
  assumes "iteration_ok it"
  shows "annotated st P lo hi t \<Longrightarrow> leaf_positions st t \<subseteq> U \<Longrightarrow> table_in U tab \<Longrightarrow>
         table_in U (compute_followpos it st t tab)"
proof (induction t arbitrary: tab)
  case (SymbolNode a c)
  then show ?case by simp
next
  case (ConcatNode a l r)
  have l: "annotated st P lo hi l" and r: "annotated st P lo hi r"
    using ConcatNode.prems(1) by auto
  have U: "leaf_positions st l \<subseteq> U" "leaf_positions st r \<subseteq> U"
    using ConcatNode.prems(2) by auto
  have "set (it (lastpos (st (ident l)))) \<subseteq> U"
    using iteration_ok_set [OF assms annotated_finite(2) [OF l]] annotated_lastpos [OF l] U by auto
  moreover have "firstpos (st (ident r)) \<subseteq> U"
    using annotated_firstpos [OF r] U by auto
  ultimately have "table_in U (add_follow (firstpos (st (ident r))) (it (lastpos (st (ident l)))) tab)"
    using ConcatNode.prems(3) by (intro table_in_add_follow)
  then show ?case
    using ConcatNode.IH(1) [OF l U(1)] ConcatNode.IH(2) [OF r U(2)] by simp
next
  case (UnionNode a l r)
  have l: "annotated st P lo hi l" and r: "annotated st P lo hi r"
    using UnionNode.prems(1) by auto
  have U: "leaf_positions st l \<subseteq> U" "leaf_positions st r \<subseteq> U"
    using UnionNode.prems(2) by auto
  show ?case
    using UnionNode.IH(1) [OF l U(1)] UnionNode.IH(2) [OF r U(2)] UnionNode.prems(3) by simp
next
  case (StarNode a l)
  have l: "annotated st P lo hi l"
    using StarNode.prems(1) by auto
  have U: "leaf_positions st l \<subseteq> U"
    using StarNode.prems(2) by auto
  have eq: "firstpos (st a) = firstpos (st (ident l))" "lastpos (st a) = lastpos (st (ident l))"
    using StarNode.prems(1) by auto
  have "set (it (lastpos (st a))) \<subseteq> U"
    using iteration_ok_set [OF assms annotated_finite(2) [OF l]] annotated_lastpos [OF l] U eq by auto
  moreover have "firstpos (st a) \<subseteq> U"
    using annotated_firstpos [OF l] U eq by auto
  ultimately have "table_in U (add_follow (firstpos (st a)) (it (lastpos (st a))) tab)"
    using StarNode.prems(3) by (intro table_in_add_follow)
  then show ?case
    using StarNode.IH [OF l U] by simp
qed

lemma any_hash_ok:
  "set xs \<subseteq> dom P \<Longrightarrow> any_hash P xs = Inr (\<exists>p\<in>set xs. P p = Some CHR ''#'')"
  by (induction xs) (auto split: option.splits)

lemma add_transitions_old:
  "pos_state d X = Some j \<Longrightarrow> state_id < length (states d) \<Longrightarrow>
   add_transitions it P state_id ((c, X) # rest) d =
     add_transitions it P state_id rest (set_transition state_id c j d)"
  by (simp add: set_transition_def)

lemma add_transitions_new:
  "pos_state d X = None \<Longrightarrow> any_hash P (it X) = Inr b \<Longrightarrow> state_id < length (states d) \<Longrightarrow>
   add_transitions it P state_id ((c, X) # rest) d =
     add_transitions it P state_id rest
       (set_transition state_id c (length (states d)) (new_state X b d))"
  by (simp add: set_transition_def new_state_def Let_def)

lemma set_transition_fields [simp]:
  "state_pos (set_transition s c j d) = state_pos d"
  "pos_state (set_transition s c j d) = pos_state d"
  "queue (set_transition s c j d) = queue d"
  "accepting_states (set_transition s c j d) = accepting_states d"
  "length (states (set_transition s c j d)) = length (states d)"
  by (simp_all add: set_transition_def)

lemma set_transition_nth:
  "i < length (states d) \<Longrightarrow>
   states (set_transition s c j d) ! i = (if i = s then (states d ! i)(c \<mapsto> j) else states d ! i)"
  by (auto simp: set_transition_def)

lemma set_transition_inv:
  "dfa_inv P A d \<Longrightarrow> dfa_inv P A (set_transition s c j d)"
proof -
  assume inv: "dfa_inv P A d"
  have "states (set_transition s c j d) \<noteq> []"
    using inv by (simp add: set_transition_def dfa_inv_def)
  then show ?thesis
    using inv unfolding dfa_inv_def set_transition_fields by blast
qed

lemma set_transition_measure [simp]:
  "dfa_measure A (set_transition s c j d) = dfa_measure A d"
  by (simp add: dfa_measure_def)

lemma new_state_fields [simp]:
  "state_pos (new_state X b d) = (state_pos d)(length (states d) \<mapsto> X)"
  "pos_state (new_state X b d) = (pos_state d)(X \<mapsto> length (states d))"
  "queue (new_state X b d) = queue d @ [length (states d)]"
  "states (new_state X b d) = states d @ [Map.empty]"
  "accepting_states (new_state X b d) =
     (if b then insert (length (states d)) (accepting_states d) else accepting_states d)"
  by (simp_all add: new_state_def)

lemma new_state_inv:
  assumes inv: "dfa_inv P A d" and new: "pos_state d X = None" and X: "X \<in> A"
    and b: "b = (\<exists>q\<in>X. P q = Some CHR ''#'')"
  shows "dfa_inv P A (new_state X b d)"
proof -
  let ?n = "length (states d)"
  have dom: "dom (state_pos d) = {..<?n}"
    and bij: "\<And>S i. (pos_state d S = Some i) = (state_pos d i = Some S)"
    and sub: "\<And>i S. state_pos d i = Some S \<Longrightarrow> S \<in> A"
    and q: "set (queue d) \<subseteq> {..<?n}"
    and acc: "accepting_states d = {i. \<exists>S. state_pos d i = Some S \<and> (\<exists>q\<in>S. P q = Some CHR ''#'')}"
    using inv by (auto simp: dfa_inv_def)
  have n: "state_pos d ?n = None"
    using dom by (metis domIff lessThan_iff less_irrefl)
  have noX: "state_pos d i \<noteq> Some X" for i
    using bij [of X i] new by simp
  have 1: "states (new_state X b d) \<noteq> []" by simp
  have 2: "dom (state_pos (new_state X b d)) = {..<length (states (new_state X b d))}"
    using dom by (auto simp: lessThan_Suc)
  have 3: "(pos_state (new_state X b d) S = Some i) = (state_pos (new_state X b d) i = Some S)" for S i
    using bij [of S i] n noX [of i] new by (auto simp: fun_upd_def)
  have 4: "S \<in> A" if "state_pos (new_state X b d) i = Some S" for i S
    using that sub X by (auto split: if_splits)
  have 5: "set (queue (new_state X b d)) \<subseteq> {..<length (states (new_state X b d))}"
    using q by auto
  have 6: "accepting_states (new_state X b d) =
      {i. \<exists>S. state_pos (new_state X b d) i = Some S \<and> (\<exists>q\<in>S. P q = Some CHR ''#'')}"
    using n by (auto simp: acc b)
  show ?thesis
    unfolding dfa_inv_def using 1 2 3 4 5 6 by blast
qed

lemma new_state_measure:
  assumes "finite A" "pos_state d X = None" "X \<in> A"
  shows "dfa_measure A (new_state X b d) = dfa_measure A d"
proof -
  have X: "X \<in> A - dom (pos_state d)"
    using assms by auto
  have f: "finite (A - dom (pos_state d))"
    using assms(1) by simp
  have "A - dom (pos_state (new_state X b d)) = (A - dom (pos_state d)) - {X}"
    by auto
  then have "card (A - dom (pos_state (new_state X b d))) = card (A - dom (pos_state d)) - 1"
    using X f by simp
  moreover have "card (A - dom (pos_state d)) > 0"
    using X f by (metis card_gt_0_iff empty_iff)
  ultimately show ?thesis
    by (simp add: dfa_measure_def)
qed

subsection \<open>The transitions recorded so far\<close>

lemma trans_ok_set_transition_other:
  "j \<noteq> s \<Longrightarrow> j < length (states d) \<Longrightarrow> trans_ok P F d j K \<Longrightarrow>
   trans_ok P F (set_transition s c k d) j K"
  by (simp add: trans_ok_def set_transition_nth)

lemma trans_ok_set_transition_same:
  assumes "s < length (states d)" "trans_ok P F d s K"
    and "pos_state d (succ_pos P F (the (state_pos d s)) c) = Some k"
  shows "trans_ok P F (set_transition s c k d) s (insert c K)"
  using assms by (auto simp: trans_ok_def set_transition_nth)

lemma trans_ok_new_state:
  assumes j: "j < length (states d)" and new: "pos_state d X = None" and ok: "trans_ok P F d j K"
  shows "trans_ok P F (new_state X b d) j K"
proof -
  have sp: "the (state_pos (new_state X b d) j) = the (state_pos d j)"
    using j by simp
  have st: "states (new_state X b d) ! j = states d ! j"
    using j by (simp add: nth_append)
  have ps: "pos_state (new_state X b d) (succ_pos P F (the (state_pos d j)) c)
            = pos_state d (succ_pos P F (the (state_pos d j)) c)" if "c \<in> K" for c
  proof -
    have "pos_state d (succ_pos P F (the (state_pos d j)) c) \<noteq> None"
      using ok that by (simp add: trans_ok_def)
    then have "succ_pos P F (the (state_pos d j)) c \<noteq> X"
      using new by auto
    then show ?thesis by simp
  qed
  show ?thesis
    unfolding trans_ok_def sp st using ok ps by (auto simp: trans_ok_def)
qed

lemma trans_inv_set_transition:
  assumes "trans_inv P F d E" "s \<in> E" "s \<notin> set (queue d)" "set (queue d) \<subseteq> {..<length (states d)}"
  shows "trans_inv P F (set_transition s c k d) E"
proof -
  have q: "states (set_transition s c k d) ! j = Map.empty" if "j \<in> set (queue d)" for j
  proof -
    have "j \<noteq> s" "j < length (states d)" using that assms(3,4) by auto
    then show ?thesis using assms(1) that by (simp add: set_transition_nth trans_inv_def)
  qed
  have f: "trans_ok P F (set_transition s c k d) j (syms P (the (state_pos d j)))"
    if "j < length (states d)" "j \<notin> set (queue d)" "j \<notin> E" for j
  proof -
    have "j \<noteq> s" using that(3) assms(2) by auto
    moreover have "trans_ok P F d j (syms P (the (state_pos d j)))"
      using assms(1) that by (simp add: trans_inv_def)
    ultimately show ?thesis using that(1) by (intro trans_ok_set_transition_other)
  qed
  show ?thesis
    unfolding trans_inv_def set_transition_fields
    using assms(1) q f by (auto simp: trans_inv_def)
qed

lemma trans_inv_new_state:
  assumes ti: "trans_inv P F d E" and q: "set (queue d) \<subseteq> {..<length (states d)}"
    and new: "pos_state d X = None"
  shows "trans_inv P F (new_state X b d) E"
proof -
  let ?n = "length (states d)"
  have 1: "distinct (queue (new_state X b d))"
    using ti q by (auto simp: trans_inv_def)
  have 2: "states (new_state X b d) ! j = Map.empty" if "j \<in> set (queue (new_state X b d))" for j
  proof (cases "j = ?n")
    case True
    then show ?thesis by simp
  next
    case False
    then have "j \<in> set (queue d)" using that by simp
    moreover from this have "j < ?n" using q by auto
    ultimately show ?thesis using ti by (simp add: nth_append trans_inv_def)
  qed
  have 3: "trans_ok P F (new_state X b d) j (syms P (the (state_pos (new_state X b d) j)))"
    if "j < length (states (new_state X b d))" "j \<notin> set (queue (new_state X b d))" "j \<notin> E" for j
  proof -
    have j: "j < ?n" "j \<notin> set (queue d)" using that(1,2) by auto
    then have "trans_ok P F d j (syms P (the (state_pos d j)))"
      using ti that(3) by (simp add: trans_inv_def)
    from trans_ok_new_state [OF j(1) new this] show ?thesis
      using j(1) by simp
  qed
  show ?thesis
    unfolding trans_inv_def using 1 2 3 by blast
qed

lemma add_transitions_ok:
  assumes it: "iteration_ok it" and A: "closed_sets P F A"
  shows "dfa_inv P A d \<Longrightarrow> trans_inv P F d {i} \<Longrightarrow> i < length (states d) \<Longrightarrow> i \<notin> set (queue d) \<Longrightarrow>
         trans_ok P F d i K \<Longrightarrow>
         (\<forall>c X. (c, X) \<in> set kvs \<longrightarrow> X = succ_pos P F (the (state_pos d i)) c \<and> X \<in> A) \<Longrightarrow>
         \<exists>d1. add_transitions it P i kvs d = Inr d1 \<and> dfa_inv P A d1 \<and> trans_inv P F d1 {i}
              \<and> dfa_measure A d1 = dfa_measure A d \<and> state_pos d1 0 = state_pos d 0
              \<and> state_pos d1 i = state_pos d i \<and> i \<notin> set (queue d1)
              \<and> trans_ok P F d1 i (K \<union> fst ` set kvs)"
proof (induction kvs arbitrary: d K)
  case Nil
  then show ?case by simp
next
  case (Cons kv kvs)
  obtain c X where kv: "kv = (c, X)" by (cases kv)
  let ?S = "the (state_pos d i)"
  have X: "X = succ_pos P F ?S c" "X \<in> A"
    and rest: "\<forall>c X. (c, X) \<in> set kvs \<longrightarrow> X = succ_pos P F ?S c \<and> X \<in> A"
    using Cons.prems(6) by (auto simp: kv)
  have q: "set (queue d) \<subseteq> {..<length (states d)}" and ne: "states d \<noteq> []"
    using Cons.prems(1) by (auto simp: dfa_inv_def)
  have K: "K \<union> fst ` set (kv # kvs) = insert c K \<union> fst ` set kvs"
    by (auto simp: kv)
  show ?case
  proof (cases "pos_state d X")
    case (Some j)
    let ?d = "set_transition i c j d"
    have 1: "dfa_inv P A ?d"
      using Cons.prems(1) by (rule set_transition_inv)
    have 2: "trans_inv P F ?d {i}"
      using Cons.prems(2) _ Cons.prems(4) q by (rule trans_inv_set_transition) simp
    have 3: "i < length (states ?d)" "i \<notin> set (queue ?d)"
      using Cons.prems(3,4) by auto
    have 4: "trans_ok P F ?d i (insert c K)"
      using Cons.prems(3,5) Some unfolding X(1) by (rule trans_ok_set_transition_same)
    have 5: "\<forall>c X. (c, X) \<in> set kvs \<longrightarrow> X = succ_pos P F (the (state_pos ?d i)) c \<and> X \<in> A"
      using rest by simp
    from Cons.IH [OF 1 2 3 4 5] show ?thesis
      unfolding kv K add_transitions_old [OF Some Cons.prems(3)] by simp
  next
    case None
    define b where "b = (\<exists>q\<in>X. P q = Some CHR ''#'')"
    have fin: "finite X" "X \<subseteq> dom P"
      using A X(2) by (auto simp: closed_sets_def)
    have any: "any_hash P (it X) = Inr b"
      using any_hash_ok [of "it X" P] iteration_ok_set [OF it fin(1)] fin(2) by (auto simp: b_def)
    let ?n = "length (states d)"
    let ?e = "new_state X b d"
    let ?d = "set_transition i c ?n ?e"
    have i0: "i < length (states ?e)" "i \<notin> set (queue ?e)"
      using Cons.prems(3,4) by auto
    have q0: "set (queue ?e) \<subseteq> {..<length (states ?e)}"
      using q by auto
    have sp0: "the (state_pos ?e i) = ?S"
      using Cons.prems(3) by simp
    have 1: "dfa_inv P A ?d"
      using new_state_inv [OF Cons.prems(1) None X(2) b_def] by (rule set_transition_inv)
    have 2: "trans_inv P F ?d {i}"
      using trans_inv_new_state [OF Cons.prems(2) q None] _ i0(2) q0
      by (rule trans_inv_set_transition) simp
    have 3: "i < length (states ?d)" "i \<notin> set (queue ?d)"
      using i0 by auto
    have "pos_state ?e (succ_pos P F (the (state_pos ?e i)) c) = Some ?n"
      unfolding sp0 using X(1) by simp
    with i0(1) trans_ok_new_state [OF Cons.prems(3) None Cons.prems(5)]
    have 4: "trans_ok P F ?d i (insert c K)"
      by (rule trans_ok_set_transition_same)
    have 5: "\<forall>c X. (c, X) \<in> set kvs \<longrightarrow> X = succ_pos P F (the (state_pos ?d i)) c \<and> X \<in> A"
      using rest sp0 by simp
    have m: "dfa_measure A ?d = dfa_measure A d"
      using new_state_measure [OF _ None X(2)] A by (simp add: closed_sets_def)
    have z: "state_pos ?d 0 = state_pos d 0" "state_pos ?d i = state_pos d i"
      using ne Cons.prems(3) by auto
    from Cons.IH [OF 1 2 3 4 5] m z show ?thesis
      unfolding kv K add_transitions_new [where it = it and P = P, OF None any Cons.prems(3)] by simp
  qed
qed

subsection \<open>The successor sets of a state\<close>

lemma setdefault_update_keys:
  "map fst (setdefault_update kvs c X) =
     (if c \<in> set (map fst kvs) then map fst kvs else map fst kvs @ [c])"
  by (induction kvs) force+

lemma setdefault_update_map_of:
  "map_of (setdefault_update kvs c X) k =
     (if k = c then Some ((case map_of kvs c of None \<Rightarrow> {} | Some v \<Rightarrow> v) \<union> X)
      else map_of kvs k)"
  by (induction kvs) auto

lemma succ_pos_insert:
  "succ_pos P F (insert p Y) c =
     (if P p = Some c then (case F p of None \<Rightarrow> {} | Some X \<Rightarrow> X) else {}) \<union> succ_pos P F Y c"
  by (simp add: succ_pos_def)

lemma syms_insert:
  "syms P (insert p Y) = (case P p of None \<Rightarrow> syms P Y
     | Some c \<Rightarrow> if c = CHR ''#'' then syms P Y else insert c (syms P Y))"
  by (auto simp: syms_def split: option.splits)

lemma succ_pos_not_sym:
  "c \<notin> syms P Y \<Longrightarrow> c \<noteq> CHR ''#'' \<Longrightarrow> succ_pos P F Y c = {}"
  by (auto simp: syms_def succ_pos_def)

lemma grouped_step:
  assumes g: "grouped P F Y kvs" and p: "P p = Some c" and c: "c \<noteq> CHR ''#''"
  shows "grouped P F (insert p Y) (setdefault_update kvs c (case F p of None \<Rightarrow> {} | Some X \<Rightarrow> X))"
proof -
  have d: "distinct (map fst kvs)"
    and m: "map_of kvs = (\<lambda>c. if c \<in> syms P Y then Some (succ_pos P F Y c) else None)"
    using g by (auto simp: grouped_def)
  have 1: "distinct (map fst (setdefault_update kvs c (case F p of None \<Rightarrow> {} | Some X \<Rightarrow> X)))"
    using d by (simp add: setdefault_update_keys)
  have 2: "map_of (setdefault_update kvs c (case F p of None \<Rightarrow> {} | Some X \<Rightarrow> X)) k =
      (if k \<in> syms P (insert p Y) then Some (succ_pos P F (insert p Y) k) else None)" for k
    using p c succ_pos_not_sym [of c P Y F]
    by (auto simp: setdefault_update_map_of m syms_insert succ_pos_insert)
  show ?thesis
    unfolding grouped_def using 1 2 by blast
qed

lemma grouped_skip:
  assumes g: "grouped P F Y kvs" and p: "P p = Some CHR ''#''"
  shows "grouped P F (insert p Y) kvs"
proof -
  have "succ_pos P F (insert p Y) k = succ_pos P F Y k" if "k \<in> syms P Y" for k
    using that p by (auto simp: succ_pos_insert syms_def)
  then show ?thesis
    using g p by (auto simp: grouped_def syms_insert)
qed

lemma symbol_pos_map_grouped:
  "set xs \<subseteq> dom P \<Longrightarrow> grouped P F Y kvs \<Longrightarrow>
   \<exists>kvs1. symbol_pos_map P F xs kvs = Inr kvs1 \<and> grouped P F (Y \<union> set xs) kvs1"
proof (induction xs arbitrary: kvs Y)
  case Nil
  then show ?case by simp
next
  case (Cons p ps)
  then obtain c where c: "P p = Some c" by auto
  have ps: "set ps \<subseteq> dom P" using Cons.prems(1) by simp
  have Y: "Y \<union> set (p # ps) = insert p Y \<union> set ps" by auto
  show ?case
  proof (cases "c = CHR ''#''")
    case True
    from Cons.IH [OF ps grouped_skip [OF Cons.prems(2) c [unfolded True]]]
    show ?thesis
      unfolding Y using c True by simp
  next
    case False
    from Cons.IH [OF ps grouped_step [OF Cons.prems(2) c False]]
    show ?thesis
      unfolding Y using c False by simp
  qed
qed

lemma grouped_Nil: "grouped P F {} []"
  by (auto simp: grouped_def syms_def)

lemma grouped_items:
  assumes "grouped P F S kvs"
  shows "fst ` set kvs = syms P S"
    and "(c, X) \<in> set kvs \<Longrightarrow> X = succ_pos P F S c \<and> c \<in> syms P S"
proof -
  have d: "distinct (map fst kvs)"
    and m: "map_of kvs = (\<lambda>c. if c \<in> syms P S then Some (succ_pos P F S c) else None)"
    using assms by (auto simp: grouped_def)
  show "fst ` set kvs = syms P S"
  proof -
    have "dom (map_of kvs) = syms P S"
      unfolding m by (auto split: if_splits)
    then show ?thesis
      by (simp add: dom_map_of_conv_image_fst)
  qed
  assume "(c, X) \<in> set kvs"
  then have "map_of kvs c = Some X"
    using d by simp
  then show "X = succ_pos P F S c \<and> c \<in> syms P S"
    unfolding m by (auto split: if_splits)
qed

subsection \<open>The loop\<close>

lemma dfa_body_ok:
  assumes it: "iteration_ok it" and A: "closed_sets P F A"
    and inv: "dfa_inv P A d" and ti: "trans_inv P F d {}" and q: "queue d \<noteq> []"
  shows "\<exists>d1. dfa_body it P F d = Inr d1 \<and> dfa_inv P A d1 \<and> trans_inv P F d1 {}
              \<and> dfa_measure A d1 < dfa_measure A d \<and> state_pos d1 0 = state_pos d 0"
proof -
  let ?i = "hd (queue d)"
  let ?e = "d\<lparr>queue := tl (queue d)\<rparr>"
  have qs: "queue d = ?i # tl (queue d)"
    using q by simp
  have i: "?i < length (states d)"
    using inv hd_in_set [OF q] by (auto simp: dfa_inv_def)
  then have "?i \<in> dom (state_pos d)"
    using inv by (simp add: dfa_inv_def)
  then obtain S where S: "state_pos d ?i = Some S"
    by blast
  have SA: "S \<in> A" using inv S by (auto simp: dfa_inv_def)
  have fin: "finite S" "S \<subseteq> dom P"
    and cl: "\<And>c. c \<in> syms P S \<Longrightarrow> succ_pos P F S c \<in> A"
    using A SA by (auto simp: closed_sets_def)
  have "set (it S) \<subseteq> dom P"
    using iteration_ok_set [OF it fin(1)] fin(2) by auto
  from symbol_pos_map_grouped [OF this grouped_Nil]
  obtain kvs where kvs: "symbol_pos_map P F (it S) [] = Inr kvs" "grouped P F S kvs"
    using iteration_ok_set [OF it fin(1)] by auto
  have dq: "distinct (queue d)" and em: "\<And>j. j \<in> set (queue d) \<Longrightarrow> states d ! j = Map.empty"
    and full: "\<And>j. j < length (states d) \<Longrightarrow> j \<notin> set (queue d) \<Longrightarrow>
                 trans_ok P F d j (syms P (the (state_pos d j)))"
    using ti by (auto simp: trans_inv_def)
  have notin: "?i \<notin> set (tl (queue d))"
    using dq qs by (metis distinct.simps(2))
  have sub: "set (queue d) = insert ?i (set (tl (queue d)))"
    using qs by (metis list.simps(15))
  have inv': "dfa_inv P A ?e"
    using inv sub by (auto simp: dfa_inv_def)
  have ti': "trans_inv P F ?e {?i}"
  proof -
    have "distinct (tl (queue d))" using dq by (rule distinct_tl)
    moreover have "states d ! j = Map.empty" if "j \<in> set (tl (queue d))" for j
      using em that sub by auto
    moreover have "trans_ok P F ?e j (syms P (the (state_pos d j)))"
      if "j < length (states d)" "j \<notin> set (tl (queue d))" "j \<noteq> ?i" for j
      using full [of j] that sub by (auto simp: trans_ok_def)
    ultimately show ?thesis
      by (simp add: trans_inv_def)
  qed
  have len: "?i < length (states ?e)" "?i \<notin> set (queue ?e)"
    using i notin by simp_all
  have t0: "trans_ok P F ?e ?i {}"
    using em [of ?i] hd_in_set [OF q] by (simp add: trans_ok_def)
  have items: "\<forall>c X. (c, X) \<in> set kvs \<longrightarrow> X = succ_pos P F (the (state_pos ?e ?i)) c \<and> X \<in> A"
    using grouped_items(2) [OF kvs(2)] cl S by auto
  have m: "dfa_measure A ?e < dfa_measure A d"
    using q by (cases "queue d") (auto simp: dfa_measure_def)
  from add_transitions_ok [OF it A inv' ti' len t0 items]
  obtain d1 where d1: "add_transitions it P ?i kvs ?e = Inr d1" "dfa_inv P A d1"
    "trans_inv P F d1 {?i}" "dfa_measure A d1 = dfa_measure A ?e"
    "state_pos d1 0 = state_pos ?e 0" "state_pos d1 ?i = state_pos ?e ?i"
    "?i \<notin> set (queue d1)" "trans_ok P F d1 ?i ({} \<union> fst ` set kvs)"
    by blast
  have "trans_ok P F d1 ?i (syms P (the (state_pos d1 ?i)))"
    using d1(8) d1(6) S grouped_items(1) [OF kvs(2)] by simp
  then have "trans_inv P F d1 {}"
    using d1(3) by (auto simp: trans_inv_def)
  moreover have "dfa_body it P F d = Inr d1"
    using S kvs(1) d1(1) by (simp add: dfa_body_def Let_def)
  ultimately show ?thesis
    using d1(2,4,5) m by auto
qed

lemma dfa_loop_ok:
  assumes it: "iteration_ok it" and A: "closed_sets P F A"
  shows "dfa_inv P A d \<Longrightarrow> trans_inv P F d {} \<Longrightarrow>
         \<exists>d1. dfa_loop it P F d = Some (Inr d1) \<and> dfa_inv P A d1 \<and> trans_inv P F d1 {}
              \<and> queue d1 = [] \<and> state_pos d1 0 = state_pos d 0"
proof (induction "dfa_measure A d" arbitrary: d rule: less_induct)
  case less
  show ?case
  proof (cases "queue d = []")
    case True
    then show ?thesis
      using less.prems by (subst dfa_loop.simps) simp
  next
    case False
    from dfa_body_ok [OF it A less.prems False]
    obtain d1 where d1: "dfa_body it P F d = Inr d1" "dfa_inv P A d1" "trans_inv P F d1 {}"
      "dfa_measure A d1 < dfa_measure A d" "state_pos d1 0 = state_pos d 0"
      by blast
    from less.hyps [OF d1(4) d1(2) d1(3)] d1(5) show ?thesis
      using False d1(1) by (subst dfa_loop.simps) simp
  qed
qed

lemma dfa_init_ok:
  assumes it: "iteration_ok it" and A: "closed_sets P F A" and S: "S \<in> A"
  shows "\<exists>d. dfa_init it P S = Inr d \<and> dfa_inv P A d \<and> trans_inv P F d {}
             \<and> state_pos d 0 = Some S"
proof -
  have fin: "finite S" "S \<subseteq> dom P"
    using A S by (auto simp: closed_sets_def)
  have any: "any_hash P (it S) = Inr (\<exists>q\<in>S. P q = Some CHR ''#'')"
    using any_hash_ok [of "it S" P] iteration_ok_set [OF it fin(1)] fin(2) by auto
  show ?thesis
    unfolding dfa_init_def Let_def any
    using S by (auto simp: dfa_inv_def trans_inv_def)
qed

lemma construct_dfa_ok:
  assumes it: "iteration_ok it" and A: "closed_sets P F A" and S: "S \<in> A"
  shows "\<exists>d. (case dfa_init it P S of Inl e \<Rightarrow> Some (Inl e) | Inr d \<Rightarrow> dfa_loop it P F d)
               = Some (Inr d) \<and> dfa_result P F A S d"
proof -
  from dfa_init_ok [OF it A S] obtain d0 where d0: "dfa_init it P S = Inr d0"
    "dfa_inv P A d0" "trans_inv P F d0 {}" "state_pos d0 0 = Some S"
    by blast
  from dfa_loop_ok [OF it A d0(2,3)] d0(1,4) show ?thesis
    by (auto simp: dfa_result_def)
qed

lemma dfa_inv_inj:
  "dfa_inv P A d \<Longrightarrow> state_pos d i = Some S \<Longrightarrow> state_pos d j = Some S \<Longrightarrow> i = j"
  unfolding dfa_inv_def by (metis option.inject)

lemma dfa_inv_bound:
  assumes "dfa_inv P A d" "finite A"
  shows "length (states d) \<le> card A"
proof -
  let ?f = "\<lambda>i. the (state_pos d i)"
  have dom: "dom (state_pos d) = {..<length (states d)}"
    using assms(1) by (simp add: dfa_inv_def)
  have "inj_on ?f {..<length (states d)}"
  proof (rule inj_onI)
    fix i j assume "i \<in> {..<length (states d)}" "j \<in> {..<length (states d)}" "?f i = ?f j"
    then obtain S where "state_pos d i = Some S" "state_pos d j = Some S"
      using dom by (metis domD option.sel)
    then show "i = j" by (rule dfa_inv_inj [OF assms(1)])
  qed
  moreover have "?f ` {..<length (states d)} \<subseteq> A"
  proof
    fix S assume "S \<in> ?f ` {..<length (states d)}"
    then obtain i where "i < length (states d)" "S = ?f i" by auto
    then have "state_pos d i = Some S"
      using dom by (metis domD lessThan_iff option.sel)
    then show "S \<in> A"
      using assms(1) by (auto simp: dfa_inv_def)
  qed
  ultimately have "card {..<length (states d)} \<le> card A"
    using assms(2) by (metis card_inj_on_le)
  then show ?thesis
    by simp
qed

lemma dfa_result_transition:
  assumes "dfa_result P F A S0 d" "state_pos d j = Some S"
  shows "(states d ! j) c = (if c \<in> syms P S then pos_state d (succ_pos P F S c) else None)"
    and "c \<in> syms P S \<Longrightarrow> \<exists>k. (states d ! j) c = Some k \<and> state_pos d k = Some (succ_pos P F S c)"
proof -
  have inv: "dfa_inv P A d" and ti: "trans_inv P F d {}" and q: "queue d = []"
    using assms(1) by (auto simp: dfa_result_def)
  have "j \<in> dom (state_pos d)" using assms(2) by blast
  then have j: "j < length (states d)"
    using inv by (simp add: dfa_inv_def)
  then have ok: "trans_ok P F d j (syms P S)"
    using ti q assms(2) by (auto simp: trans_inv_def)
  then show eq: "(states d ! j) c = (if c \<in> syms P S then pos_state d (succ_pos P F S c) else None)"
    using assms(2) by (simp add: trans_ok_def)
  assume c: "c \<in> syms P S"
  then obtain k where "pos_state d (succ_pos P F S c) = Some k"
    using ok assms(2) by (auto simp: trans_ok_def)
  moreover from this have "state_pos d k = Some (succ_pos P F S c)"
    using inv by (simp add: dfa_inv_def)
  ultimately show "\<exists>k. (states d ! j) c = Some k \<and> state_pos d k = Some (succ_pos P F S c)"
    using eq c by simp
qed

lemma dfa_result_accepting:
  assumes "dfa_result P F A S0 d" "state_pos d j = Some S"
  shows "j \<in> accepting_states d \<longleftrightarrow> (\<exists>q\<in>S. P q = Some CHR ''#'')"
  using assms by (auto simp: dfa_result_def dfa_inv_def)

lemma leaf_positions_cong:
  "(\<And>a. a \<in> leaf_idents t \<Longrightarrow> st' a = st a) \<Longrightarrow> leaf_positions st' t = leaf_positions st t"
  by (simp add: leaf_positions_def)

lemma node_ok_root:
  assumes "node_ok r 0 k e"
  shows "wf_node (ConcatNode (Suc k) e (SymbolNode k c))"
    and "k \<notin> idents e" and "Suc k \<notin> idents e"
proof -
  show k: "k \<notin> idents e" and k1: "Suc k \<notin> idents e"
    using node_ok_fresh [OF assms, of k] node_ok_fresh [OF assms, of "Suc k"] by auto
  show "wf_node (ConcatNode (Suc k) e (SymbolNode k c))"
    using assms k k1 by (simp add: node_ok_def)
qed

lemma compute_followpos_dom:
  assumes "iteration_ok it"
  shows "annotated st P lo hi t \<Longrightarrow>
         dom (compute_followpos it st t tab) \<subseteq> dom tab \<union> leaf_positions st t"
proof (induction t arbitrary: tab)
  case (SymbolNode a c)
  show ?case
    unfolding compute_followpos.simps by blast
next
  case (ConcatNode a l r)
  have l: "annotated st P lo hi l" and r: "annotated st P lo hi r"
    using ConcatNode.prems(1) by auto
  let ?t1 = "add_follow (firstpos (st (ident r))) (it (lastpos (st (ident l)))) tab"
  have "set (it (lastpos (st (ident l)))) \<subseteq> leaf_positions st l"
    using iteration_ok_set [OF assms annotated_finite(2) [OF l]] annotated_lastpos [OF l] by auto
  then have 1: "dom ?t1 \<subseteq> dom tab \<union> leaf_positions st l"
    unfolding add_follow_dom by blast
  have 2: "dom (compute_followpos it st l ?t1) \<subseteq> dom ?t1 \<union> leaf_positions st l"
    by (rule ConcatNode.IH(1) [OF l])
  have 3: "dom (compute_followpos it st r (compute_followpos it st l ?t1))
           \<subseteq> dom (compute_followpos it st l ?t1) \<union> leaf_positions st r"
    by (rule ConcatNode.IH(2) [OF r])
  show ?case
    unfolding compute_followpos.simps leaf_positions_simps using 1 2 3 by blast
next
  case (UnionNode a l r)
  have l: "annotated st P lo hi l" and r: "annotated st P lo hi r"
    using UnionNode.prems(1) by auto
  have 2: "dom (compute_followpos it st l tab) \<subseteq> dom tab \<union> leaf_positions st l"
    by (rule UnionNode.IH(1) [OF l])
  have 3: "dom (compute_followpos it st r (compute_followpos it st l tab))
           \<subseteq> dom (compute_followpos it st l tab) \<union> leaf_positions st r"
    by (rule UnionNode.IH(2) [OF r])
  show ?case
    unfolding compute_followpos.simps leaf_positions_simps using 2 3 by blast
next
  case (StarNode a l)
  have l: "annotated st P lo hi l"
    using StarNode.prems(1) by auto
  have eq: "lastpos (st a) = lastpos (st (ident l))"
    using StarNode.prems(1) by auto
  let ?t1 = "add_follow (firstpos (st a)) (it (lastpos (st a))) tab"
  have "set (it (lastpos (st a))) \<subseteq> leaf_positions st l"
    using iteration_ok_set [OF assms annotated_finite(2) [OF l]] annotated_lastpos [OF l] eq by auto
  then have 1: "dom ?t1 \<subseteq> dom tab \<union> leaf_positions st l"
    unfolding add_follow_dom by blast
  have 2: "dom (compute_followpos it st l ?t1) \<subseteq> dom ?t1 \<union> leaf_positions st l"
    by (rule StarNode.IH [OF l])
  show ?case
    unfolding compute_followpos.simps leaf_positions_simps using 1 2 by blast
qed

lemma annotated_memory_eq: "annotated_memory t = annotate t fresh_memory"
  by (simp add: annotated_memory_def fresh_memory_def)

lemma annotated_memory_root:
  assumes e: "node_ok r 0 k e"
  defines "t \<equiv> ConcatNode (Suc k) e (SymbolNode k CHR ''#'')"
  defines "m \<equiv> annotated_memory t"
  shows "annotated (node_attrs m) (positions m) 1 (Suc (leaves e)) e"
    and "position (node_attrs m k) = Some (Suc (leaves e))"
    and "firstpos (node_attrs m k) = {Suc (leaves e)}"
    and "positions m (Suc (leaves e)) = Some CHR ''#''"
    and "annotated (node_attrs m) (positions m) 1 (Suc (leaves t)) t"
    and "position_counter m = Suc (leaves t)"
    and "dom (positions m) = {1..leaves t}"
proof -
  let ?m1 = "annotate e fresh_memory"
  have wf: "wf_node e" "wf_node t" "k \<notin> idents e" "Suc k \<notin> idents e"
    using e node_ok_root [OF e] by (auto simp: node_ok_def t_def)
  have c1: "position_counter ?m1 = Suc (leaves e)"
    by (simp add: annotate_counter fresh_memory_def)
  have a1: "annotated (node_attrs ?m1) (positions ?m1) 1 (Suc (leaves e)) e"
    using annotate_annotated [OF wf(1), of fresh_memory] c1 by (simp add: fresh_memory_def)
  have st: "node_attrs m a = node_attrs ?m1 a" if "a \<in> idents e" for a
    using that wf(3,4) by (auto simp: m_def t_def annotated_memory_eq Let_def)
  have ps: "positions m p = positions ?m1 p" if "p < Suc (leaves e)" for p
    using that c1 by (simp add: m_def t_def annotated_memory_eq Let_def)
  show "annotated (node_attrs m) (positions m) 1 (Suc (leaves e)) e"
    by (rule annotated_local [OF a1]) (simp_all add: st ps)
  show "position (node_attrs m k) = Some (Suc (leaves e))"
    "firstpos (node_attrs m k) = {Suc (leaves e)}"
    "positions m (Suc (leaves e)) = Some CHR ''#''"
    using c1 by (simp_all add: m_def t_def annotated_memory_eq Let_def)
  show c: "position_counter m = Suc (leaves t)"
    by (simp add: m_def annotated_memory_eq annotate_counter fresh_memory_def)
  show "annotated (node_attrs m) (positions m) 1 (Suc (leaves t)) t"
    using annotate_annotated [OF wf(2), of fresh_memory] c
    by (simp add: m_def annotated_memory_eq fresh_memory_def del: annotated.simps annotate.simps)
  show "dom (positions m) = {1..leaves t}"
    unfolding m_def annotated_memory_eq annotate_positions_dom
    by (auto simp: fresh_memory_def)
qed

lemma closed_sets_Pow:
  assumes "finite U" "U \<subseteq> dom P" "table_in U F"
  shows "closed_sets P F (Pow U)"
proof -
  have "succ_pos P F S c \<subseteq> U" for S c
  proof
    fix x assume "x \<in> succ_pos P F S c"
    then obtain p X where "F p = Some X" "x \<in> X"
      by (auto simp: succ_pos_def split: if_splits option.splits)
    then show "x \<in> U"
      using assms(3) by (auto simp: table_in_def)
  qed
  then show ?thesis
    using assms(1,2) by (auto simp: closed_sets_def intro: finite_subset)
qed

lemma table_in_empty: "table_in U Map.empty"
  by (simp add: table_in_def)

lemma run_pipeline_eq:
  "run_pipeline n it g r =
     bind_res (parse_regex n r)
       (\<lambda>t. bind_res
          (construct_dfa_run it (positions (annotated_memory t)) (node_attrs (annotated_memory t)) t
             (compute_followpos it (node_attrs (annotated_memory t)) t Map.empty))
          (\<lambda>d. Some (Inr \<lparr>root = t, mem = annotated_memory t,
                  followpos_table = compute_followpos it (node_attrs (annotated_memory t)) t Map.empty,
                  final = d\<rparr>)))"
  by (simp add: run_pipeline_def annotated_memory_def Let_def)

text \<open>Every parsed regex is converted.\<close>

lemma pipeline_ok:
  assumes p: "parse_regex n r = Some (Inr t)" and it: "iteration_ok it"
  defines "m \<equiv> annotated_memory t"
  defines "F \<equiv> compute_followpos it (node_attrs m) t Map.empty"
  defines "U \<equiv> leaf_positions (node_attrs m) t"
  shows "\<exists>d. run_pipeline n it g r = Some (Inr \<lparr>root = t, mem = m, followpos_table = F, final = d\<rparr>)
             \<and> dfa_result (positions m) F (Pow U) (firstpos (node_attrs m (ident t))) d"
    and "closed_sets (positions m) F (Pow U)"
proof -
  obtain e k where t: "t = ConcatNode (Suc k) e (SymbolNode k CHR ''#'')" and e: "node_ok r 0 k e"
    using parse_regex_shape [OF p] by blast
  have an: "annotated (node_attrs m) (positions m) 1 (Suc (leaves t)) t"
    using annotated_memory_root(5) [OF e] by (simp add: m_def t)
  have U: "finite U" "U \<subseteq> dom (positions m)"
    using annotated_leaf_symbol [OF an] by (auto simp: U_def)
  have F: "table_in U F"
    unfolding F_def U_def
    by (rule compute_followpos_table_in [OF it an order_refl table_in_empty])
  show cl: "closed_sets (positions m) F (Pow U)"
    by (rule closed_sets_Pow [OF U F])
  have S: "firstpos (node_attrs m (ident t)) \<in> Pow U"
    using annotated_firstpos [OF an] by (simp add: U_def)
  from construct_dfa_ok [OF it cl S] obtain d where
    d: "(case dfa_init it (positions m) (firstpos (node_attrs m (ident t))) of
          Inl e \<Rightarrow> Some (Inl e) | Inr d \<Rightarrow> dfa_loop it (positions m) F d) = Some (Inr d)"
    "dfa_result (positions m) F (Pow U) (firstpos (node_attrs m (ident t))) d"
    by blast
  have "run_pipeline n it g r = Some (Inr \<lparr>root = t, mem = m, followpos_table = F, final = d\<rparr>)"
    unfolding run_pipeline_eq p m_def F_def
    by (simp add: bind_res_def construct_dfa_run_def d(1) [unfolded m_def F_def])
  with d(2) show "\<exists>d. run_pipeline n it g r = Some (Inr \<lparr>root = t, mem = m, followpos_table = F, final = d\<rparr>)
             \<and> dfa_result (positions m) F (Pow U) (firstpos (node_attrs m (ident t))) d"
    by blast
qed

lemma annotate_leaf_attrs:
  "a \<in> leaf_idents l \<union> leaf_idents r \<Longrightarrow> b \<notin> idents l \<Longrightarrow> b \<notin> idents r \<Longrightarrow>
   (f(b := v)) a = f a"
  using leaf_idents_subset [of l] leaf_idents_subset [of r] by auto

lemma annotate_leaf_inj:
  "wf_node t \<Longrightarrow> inj_on (\<lambda>a. position (node_attrs (annotate t m) a)) (leaf_idents t)"
proof (induction t arbitrary: m)
  case (SymbolNode a c)
  show ?case by simp
next
  case (ConcatNode a l r)
  let ?m1 = "annotate l m" and ?m2 = "annotate r (annotate l m)"
  have wf: "wf_node l" "wf_node r" "a \<notin> idents l" "a \<notin> idents r"
    "idents l \<inter> idents r = {} \<or> (\<exists>b. r = StarNode b l)"
    using ConcatNode.prems by (auto split: RegexNode.splits)
  have inj2: "inj_on (\<lambda>a. position (node_attrs ?m2 a)) (leaf_idents l \<union> leaf_idents r)"
  proof (cases "idents l \<inter> idents r = {}")
    case True
    have same: "node_attrs ?m2 b = node_attrs ?m1 b" if "b \<in> leaf_idents l" for b
      using that True leaf_idents_subset [of l] by (intro annotate_frame) auto
    have "inj_on (\<lambda>a. position (node_attrs ?m1 a)) (leaf_idents l)"
      by (rule ConcatNode.IH(1) [OF wf(1)])
    then have il: "inj_on (\<lambda>a. position (node_attrs ?m2 a)) (leaf_idents l)"
      by (rule inj_on_cong [THEN iffD1, rotated]) (simp add: same)
    have ir: "inj_on (\<lambda>a. position (node_attrs ?m2 a)) (leaf_idents r)"
      by (rule ConcatNode.IH(2) [OF wf(2)])
    have rl: "\<exists>p. position (node_attrs ?m2 b) = Some p \<and> p < position_counter ?m1"
      if "b \<in> leaf_idents l" for b
      using annotated_leaf_holds [OF annotate_annotated [OF wf(1), of m] that] same [OF that] by auto
    have rr: "\<exists>p. position (node_attrs ?m2 b) = Some p \<and> position_counter ?m1 \<le> p"
      if "b \<in> leaf_idents r" for b
      using annotated_leaf_holds [OF annotate_annotated [OF wf(2), of ?m1] that] by auto
    have "position (node_attrs ?m2 x) \<noteq> position (node_attrs ?m2 y)"
      if "x \<in> leaf_idents l" "y \<in> leaf_idents r" for x y
      using rl [OF that(1)] rr [OF that(2)] by auto
    then show ?thesis
      using il ir unfolding inj_on_Un by (auto simp: image_iff)
  next
    case False
    then obtain b where "r = StarNode b l" using wf(5) by auto
    then have "leaf_idents l \<union> leaf_idents r = leaf_idents r" by simp
    then show ?thesis
      using ConcatNode.IH(2) [OF wf(2), of ?m1] by simp
  qed
  show ?case
    unfolding annotate_Concat_fields leaf_idents.simps
    by (rule inj_on_cong [THEN iffD1, OF _ inj2]) (simp add: annotate_leaf_attrs [OF _ wf(3,4)])
next
  case (UnionNode a l r)
  let ?m1 = "annotate l m" and ?m2 = "annotate r (annotate l m)"
  have wf: "wf_node l" "wf_node r" "a \<notin> idents l" "a \<notin> idents r" "idents l \<inter> idents r = {}"
    using UnionNode.prems by auto
  have same: "node_attrs ?m2 b = node_attrs ?m1 b" if "b \<in> leaf_idents l" for b
    using that wf(5) leaf_idents_subset [of l] by (intro annotate_frame) auto
  have "inj_on (\<lambda>a. position (node_attrs ?m1 a)) (leaf_idents l)"
    by (rule UnionNode.IH(1) [OF wf(1)])
  then have il: "inj_on (\<lambda>a. position (node_attrs ?m2 a)) (leaf_idents l)"
    by (rule inj_on_cong [THEN iffD1, rotated]) (simp add: same)
  have ir: "inj_on (\<lambda>a. position (node_attrs ?m2 a)) (leaf_idents r)"
    by (rule UnionNode.IH(2) [OF wf(2)])
  have rl: "\<exists>p. position (node_attrs ?m2 b) = Some p \<and> p < position_counter ?m1"
    if "b \<in> leaf_idents l" for b
    using annotated_leaf_holds [OF annotate_annotated [OF wf(1), of m] that] same [OF that] by auto
  have rr: "\<exists>p. position (node_attrs ?m2 b) = Some p \<and> position_counter ?m1 \<le> p"
    if "b \<in> leaf_idents r" for b
    using annotated_leaf_holds [OF annotate_annotated [OF wf(2), of ?m1] that] by auto
  have "position (node_attrs ?m2 x) \<noteq> position (node_attrs ?m2 y)"
    if "x \<in> leaf_idents l" "y \<in> leaf_idents r" for x y
    using rl [OF that(1)] rr [OF that(2)] by auto
  then have inj2: "inj_on (\<lambda>a. position (node_attrs ?m2 a)) (leaf_idents l \<union> leaf_idents r)"
    using il ir unfolding inj_on_Un by (auto simp: image_iff)
  show ?case
    unfolding annotate_Union_fields leaf_idents.simps
    by (rule inj_on_cong [THEN iffD1, OF _ inj2]) (simp add: annotate_leaf_attrs [OF _ wf(3,4)])
next
  case (StarNode a l)
  have wf: "wf_node l" "a \<notin> idents l"
    using StarNode.prems by auto
  have "a \<notin> leaf_idents l"
    using wf(2) leaf_idents_subset [of l] by auto
  then show ?case
    unfolding annotate_Star_fields leaf_idents.simps
    by (intro inj_on_cong [THEN iffD1, OF _ StarNode.IH [OF wf(1), of m]]) auto
qed

lemma annotate_leaf_dense:
  "unshared t \<Longrightarrow>
   leaf_positions (node_attrs (annotate t m)) t
     = {position_counter m ..< position_counter m + leaves t}"
proof (induction t arbitrary: m)
  case (SymbolNode a c)
  show ?case by simp
next
  case (ConcatNode a l r)
  let ?m1 = "annotate l m" and ?m2 = "annotate r (annotate l m)"
  have u: "unshared l" "unshared r" "a \<notin> idents l" "a \<notin> idents r" "idents l \<inter> idents r = {}"
    using ConcatNode.prems by auto
  have same: "node_attrs ?m2 b = node_attrs ?m1 b" if "b \<in> leaf_idents l" for b
    using that u(5) leaf_idents_subset [of l] by (intro annotate_frame) auto
  have l: "leaf_positions (node_attrs (annotate (ConcatNode a l r) m)) l = leaf_positions (node_attrs ?m1) l"
    unfolding annotate_Concat_fields
    using u(3) leaf_idents_subset [of l]
    by (intro leaf_positions_cong) (auto simp: same)
  have r: "leaf_positions (node_attrs (annotate (ConcatNode a l r) m)) r = leaf_positions (node_attrs ?m2) r"
    unfolding annotate_Concat_fields
    using u(4) leaf_idents_subset [of r]
    by (intro leaf_positions_cong) auto
  show ?case
    unfolding leaf_positions_simps l r ConcatNode.IH(1) [OF u(1)] ConcatNode.IH(2) [OF u(2)]
    by (auto simp: annotate_counter)
next
  case (UnionNode a l r)
  let ?m1 = "annotate l m" and ?m2 = "annotate r (annotate l m)"
  have u: "unshared l" "unshared r" "a \<notin> idents l" "a \<notin> idents r" "idents l \<inter> idents r = {}"
    using UnionNode.prems by auto
  have same: "node_attrs ?m2 b = node_attrs ?m1 b" if "b \<in> leaf_idents l" for b
    using that u(5) leaf_idents_subset [of l] by (intro annotate_frame) auto
  have l: "leaf_positions (node_attrs (annotate (UnionNode a l r) m)) l = leaf_positions (node_attrs ?m1) l"
    unfolding annotate_Union_fields
    using u(3) leaf_idents_subset [of l]
    by (intro leaf_positions_cong) (auto simp: same)
  have r: "leaf_positions (node_attrs (annotate (UnionNode a l r) m)) r = leaf_positions (node_attrs ?m2) r"
    unfolding annotate_Union_fields
    using u(4) leaf_idents_subset [of r]
    by (intro leaf_positions_cong) auto
  show ?case
    unfolding leaf_positions_simps l r UnionNode.IH(1) [OF u(1)] UnionNode.IH(2) [OF u(2)]
    by (auto simp: annotate_counter)
next
  case (StarNode a l)
  have u: "unshared l" "a \<notin> idents l"
    using StarNode.prems by auto
  have l: "leaf_positions (node_attrs (annotate (StarNode a l) m)) l = leaf_positions (node_attrs (annotate l m)) l"
    unfolding annotate_Star_fields
    using u(2) leaf_idents_subset [of l]
    by (intro leaf_positions_cong) auto
  show ?case
    unfolding leaf_positions_simps l StarNode.IH [OF u(1)] by simp
qed

lemma node_ok_unshared_root:
  assumes "node_ok r 0 k e" "CHR ''+'' \<notin> set r"
  shows "unshared (ConcatNode (Suc k) e (SymbolNode k c))"
  using assms node_ok_root(2,3) [OF assms(1)] by (simp add: node_ok_def)

lemma fresh_memory_position_counter: "position_counter fresh_memory = 1"
  by (simp add: fresh_memory_def)

lemma iteration_ok_sorted: "iteration_ok sorted_list_of_set"
  by (simp add: iteration_ok_def)

text \<open>A run of the conversion on a parsed tree, for any finite family of position-sets
  that holds the start set and is closed under the successor sets.\<close>

lemma pipeline_closed:
  assumes p: "parse_regex n r = Some (Inr t)" and it: "iteration_ok it"
    and cl: "closed_sets (positions (annotated_memory t))
               (compute_followpos it (node_attrs (annotated_memory t)) t Map.empty) A"
    and S: "firstpos (node_attrs (annotated_memory t) (ident t)) \<in> A"
  shows "\<exists>d. run_pipeline n it g r =
               Some (Inr \<lparr>root = t, mem = annotated_memory t,
                 followpos_table = compute_followpos it (node_attrs (annotated_memory t)) t Map.empty,
                 final = d\<rparr>)
             \<and> convert n it g r = Some (Inr (states d, accepting_states d))
             \<and> dfa_result (positions (annotated_memory t))
                 (compute_followpos it (node_attrs (annotated_memory t)) t Map.empty) A
                 (firstpos (node_attrs (annotated_memory t) (ident t))) d"
proof -
  from construct_dfa_ok [OF it cl S] obtain d where
    d: "(case dfa_init it (positions (annotated_memory t))
               (firstpos (node_attrs (annotated_memory t) (ident t))) of
          Inl e \<Rightarrow> Some (Inl e)
        | Inr d \<Rightarrow> dfa_loop it (positions (annotated_memory t))
                    (compute_followpos it (node_attrs (annotated_memory t)) t Map.empty) d)
        = Some (Inr d)"
    "dfa_result (positions (annotated_memory t))
       (compute_followpos it (node_attrs (annotated_memory t)) t Map.empty) A
       (firstpos (node_attrs (annotated_memory t) (ident t))) d"
    by blast
  have run: "run_pipeline n it g r =
               Some (Inr \<lparr>root = t, mem = annotated_memory t,
                 followpos_table = compute_followpos it (node_attrs (annotated_memory t)) t Map.empty,
                 final = d\<rparr>)"
    unfolding run_pipeline_eq p
    by (simp add: bind_res_def construct_dfa_run_def d(1))
  have "convert n it g r = Some (Inr (states d, accepting_states d))"
    unfolding convert_def run by (simp add: bind_res_def)
  with run d(2) show ?thesis by blast
qed

lemma dfa_result_step:
  assumes "dfa_result P F A S0 d" "state_pos d j = Some S" "c \<in> syms P S"
    "succ_pos P F S c = X"
  shows "\<exists>k. (states d ! j) c = Some k \<and> state_pos d k = Some X"
  using dfa_result_transition(2) [OF assms(1,2,3)] assms(4) by simp

lemma dfa_result_inj:
  "dfa_result P F A S0 d \<Longrightarrow> state_pos d i = Some S \<Longrightarrow> state_pos d j = Some S \<Longrightarrow> i = j"
  unfolding dfa_result_def using dfa_inv_inj by blast

subsection \<open>The regex \<open>a*\<close>\<close>

lemma parse_a_star: "parse_regex (n + 5) ''a*'' = Some (Inr tree_a_star)"
  by (simp add: parser_eval eval_nat_numeral tree_a_star_def)

lemma parse_a_star_5: "parse_regex 5 ''a*'' = Some (Inr tree_a_star)"
  using parse_a_star [of 0] by simp

lemma mem_a_star:
  "positions (annotated_memory tree_a_star) 1 = Some CHR ''a''"
  "positions (annotated_memory tree_a_star) 2 = Some CHR ''#''"
  "firstpos (node_attrs (annotated_memory tree_a_star) (ident tree_a_star)) = {1, 2}"
  "leaf_positions (node_attrs (annotated_memory tree_a_star)) tree_a_star = {1, 2}"
  by (auto simp: annotated_memory_def tree_a_star_def Let_def)

lemma followpos_a_star:
  assumes "iteration_ok it"
  shows "compute_followpos it (node_attrs (annotated_memory tree_a_star)) tree_a_star Map.empty 1
         = Some {1, 2}"
  using assms
  by (auto simp: annotated_memory_def tree_a_star_def Let_def add_follow_eq iteration_ok_set)

lemmas a_star_eval =
  mem_a_star mem_a_star [simplified] followpos_a_star followpos_a_star [simplified]

subsection \<open>The regex \<open>#\<close>\<close>

lemma parse_hash: "parse_regex (n + 4) ''#'' = Some (Inr tree_hash)"
  by (simp add: parser_eval eval_nat_numeral tree_hash_def)

lemma mem_hash:
  "positions (annotated_memory tree_hash) 1 = Some CHR ''#''"
  "positions (annotated_memory tree_hash) 2 = Some CHR ''#''"
  "position (node_attrs (annotated_memory tree_hash) 0) = Some 1"
  "position (node_attrs (annotated_memory tree_hash) 1) = Some 2"
  "firstpos (node_attrs (annotated_memory tree_hash) (ident tree_hash)) = {1}"
  by (auto simp: annotated_memory_def tree_hash_def Let_def)

lemmas hash_eval = mem_hash mem_hash [simplified]

lemma run_hash:
  assumes "iteration_ok it"
  shows "\<exists>p. run_pipeline (n + 4) it g ''#'' = Some (Inr p) \<and> root p = tree_hash
           \<and> mem p = annotated_memory tree_hash
           \<and> state_pos (final p) 0 = Some {1} \<and> 0 \<in> accepting_states (final p)
           \<and> states (final p) ! 0 = Map.empty"
proof -
  let ?P = "positions (annotated_memory tree_hash)"
  let ?F = "compute_followpos it (node_attrs (annotated_memory tree_hash)) tree_hash Map.empty"
  from pipeline_ok(1) [OF parse_hash [of n] assms, where g = g]
  obtain d where run: "run_pipeline (n + 4) it g ''#'' =
      Some (Inr \<lparr>root = tree_hash, mem = annotated_memory tree_hash, followpos_table = ?F, final = d\<rparr>)"
    and res: "dfa_result ?P ?F (Pow (leaf_positions (node_attrs (annotated_memory tree_hash)) tree_hash)) {1} d"
    by (auto simp: hash_eval)
  have s0: "state_pos d 0 = Some {1}"
    using res by (simp add: dfa_result_def)
  have acc: "0 \<in> accepting_states d"
    unfolding dfa_result_accepting [OF res s0] by (simp add: hash_eval)
  have "syms ?P {1} = {}"
    by (auto simp: syms_def hash_eval)
  then have "(states d ! 0) c = None" for c
    using dfa_result_transition(1) [OF res s0, of c] by simp
  then have "states d ! 0 = Map.empty"
    by (intro ext)
  with run s0 acc show ?thesis by simp
qed

subsection \<open>The regex \<open>a+\<close>\<close>

lemma parse_a_plus: "parse_regex 5 ''a+'' = Some (Inr tree_a_plus)"
  by (simp add: parser_eval eval_nat_numeral tree_a_plus_def)

lemma mem_a_plus:
  "leaf_positions (node_attrs (annotated_memory tree_a_plus)) tree_a_plus = {2, 3}"
  "dom (positions (annotated_memory tree_a_plus)) = {1, 2, 3}"
  "leaves tree_a_plus = 3"
  "leaf_idents tree_a_plus = {0, 3}"
  by (auto simp: annotated_memory_def tree_a_plus_def Let_def split: if_splits)

lemma card_leaf_idents_a_plus: "card (leaf_idents tree_a_plus) = 2"
  by (simp add: mem_a_plus)

subsection \<open>The regex \<open>(a|b)*abb\<close>\<close>

lemma parse_abb: "parse_regex (n + 14) ''(a|b)*abb'' = Some (Inr tree_abb)"
  by (simp add: parser_eval eval_nat_numeral tree_abb_def)

lemma mem_abb:
  "positions (annotated_memory tree_abb) 1 = Some CHR ''a''"
  "positions (annotated_memory tree_abb) 2 = Some CHR ''b''"
  "positions (annotated_memory tree_abb) 3 = Some CHR ''a''"
  "positions (annotated_memory tree_abb) 4 = Some CHR ''b''"
  "positions (annotated_memory tree_abb) 5 = Some CHR ''b''"
  "positions (annotated_memory tree_abb) 6 = Some CHR ''#''"
  "firstpos (node_attrs (annotated_memory tree_abb) (ident tree_abb)) = {1, 2, 3}"
  by (auto simp: annotated_memory_def tree_abb_def Let_def)

lemma followpos_abb:
  assumes "iteration_ok it"
  shows "compute_followpos it (node_attrs (annotated_memory tree_abb)) tree_abb Map.empty 1 = Some {1, 2, 3}"
    "compute_followpos it (node_attrs (annotated_memory tree_abb)) tree_abb Map.empty 2 = Some {1, 2, 3}"
    "compute_followpos it (node_attrs (annotated_memory tree_abb)) tree_abb Map.empty 3 = Some {4}"
    "compute_followpos it (node_attrs (annotated_memory tree_abb)) tree_abb Map.empty 4 = Some {5}"
    "compute_followpos it (node_attrs (annotated_memory tree_abb)) tree_abb Map.empty 5 = Some {6}"
  using assms
  by (auto simp: annotated_memory_def tree_abb_def Let_def add_follow_eq iteration_ok_set)

lemmas abb_eval = mem_abb mem_abb [simplified] followpos_abb followpos_abb [simplified]

lemma closed_sets_four:
  assumes "finite S0" "finite S1" "finite S2" "finite S3"
    and "S0 \<subseteq> dom P" "S1 \<subseteq> dom P" "S2 \<subseteq> dom P" "S3 \<subseteq> dom P"
    and "syms P S0 = {a, b}" "syms P S1 = {a, b}" "syms P S2 = {a, b}" "syms P S3 = {a, b}"
    and "succ_pos P F S0 a \<in> {S0, S1, S2, S3}" "succ_pos P F S0 b \<in> {S0, S1, S2, S3}"
    and "succ_pos P F S1 a \<in> {S0, S1, S2, S3}" "succ_pos P F S1 b \<in> {S0, S1, S2, S3}"
    and "succ_pos P F S2 a \<in> {S0, S1, S2, S3}" "succ_pos P F S2 b \<in> {S0, S1, S2, S3}"
    and "succ_pos P F S3 a \<in> {S0, S1, S2, S3}" "succ_pos P F S3 b \<in> {S0, S1, S2, S3}"
  shows "closed_sets P F {S0, S1, S2, S3}"
  unfolding closed_sets_def using assms by simp

lemma four_distinct:
  assumes "f k0 = Some A" "f k1 = Some B" "f k2 = Some C" "f k3 = Some D"
    and "A \<noteq> B" "A \<noteq> C" "A \<noteq> D" "B \<noteq> C" "B \<noteq> D" "C \<noteq> D"
  shows "distinct [k0, k1, k2, k3]"
  using assms by auto

lemma dom_lessThan: "dom f = {..<n} \<Longrightarrow> f i = Some X \<Longrightarrow> i < (n :: nat)"
  by blast

lemma four_le:
  assumes "distinct [a, b, c, e]" "a < n" "b < n" "c < n" "e < (n :: nat)"
  shows "4 \<le> n"
proof -
  have "set [a, b, c, e] \<subseteq> {..<n}"
    using assms(2-5) by simp
  then have "card (set [a, b, c, e]) \<le> card {..<n}"
    by (intro card_mono) auto
  then show ?thesis
    using distinct_card [OF assms(1)] by simp
qed

section \<open>The claims\<close>

text \<open>
  Claim C1, as stated: parsing \<open>((\<close> fails with \<open>MismatchedParentheses\<close>.
  It does not.  After the second \<open>(\<close> the input is at its end, and \<open>base\<close> is
  called there before any closing parenthesis is looked for: it raises
  \<open>Unexpected character: None\<close>.
\<close>

theorem parse_double_open_counterexample:
  "parse_regex 12 ''(('' = Some (Inl (UnexpectedCharacter None))
   \<and> parse_regex 12 ''(('' \<noteq> Some (Inl MismatchedParentheses)"
  by (simp add: parser_eval eval_nat_numeral)

text \<open>
  Claim C1, amended: parsing \<open>((\<close> fails with \<open>UnexpectedCharacter\<close> of no character
  (the end of the input), for every bound on the depth of the calls that lets the
  parser reach the failure.
\<close>

theorem parse_double_open_unexpected:
  "parse_regex (n + 12) ''(('' = Some (Inl (UnexpectedCharacter None))"
  by (simp add: parser_eval eval_nat_numeral)

text \<open>
  Claim C2, as stated: after the annotation of a parsed regex the ids held by the
  leaves are unique and dense over \<open>1..n\<close>, \<open>n\<close> the number of leaves with the end
  marker, and the position table has exactly the keys \<open>1..n\<close>.
  \<open>spec_positions_dense\<close> says so for a given \<open>n\<close>.  It fails on \<open>a+\<close>, whichever way
  the leaves are counted: the parser puts the one leaf object of \<open>a\<close> under the
  concatenation and under the star, \<open>annotate\<close> visits it twice and the second visit
  overwrites its id.  The table has the keys 1, 2, 3; the leaf \<open>a\<close> holds 2 and the end
  marker 3; no leaf holds 1.
\<close>

theorem positions_dense_counterexample:
  "parse_regex 5 ''a+'' = Some (Inr tree_a_plus)
   \<and> \<not> spec_positions_dense tree_a_plus (annotated_memory tree_a_plus) (leaves tree_a_plus)
   \<and> \<not> spec_positions_dense tree_a_plus (annotated_memory tree_a_plus)
         (card (leaf_idents tree_a_plus))"
proof -
  have "(1::nat) \<in> {1..3}" "(1::nat) \<notin> {2, 3}" "(3::nat) \<in> {1, 2, 3}" "(3::nat) \<notin> {1..2}"
    by simp_all
  then have ne: "{2, 3} \<noteq> {1..3::nat}" "{1, 2, 3} \<noteq> {1..2::nat}"
    by metis+
  have n1: "\<not> spec_positions_dense tree_a_plus (annotated_memory tree_a_plus) 3"
    unfolding spec_positions_dense_def mem_a_plus using ne(1) by blast
  have n2: "\<not> spec_positions_dense tree_a_plus (annotated_memory tree_a_plus) 2"
    unfolding spec_positions_dense_def mem_a_plus using ne(2) by blast
  show ?thesis
    unfolding mem_a_plus(3) card_leaf_idents_a_plus
    by (intro conjI parse_a_plus n1 n2)
qed

text \<open>
  Claim C2, amended: after the annotation of a parsed regex the position table has
  exactly the keys \<open>1..n\<close>, where \<open>n\<close> counts the leaves of the tree with the end marker,
  a leaf under a \<open>+\<close> once for each of its two places; every leaf holds exactly one id,
  which lies in \<open>1..n\<close>, and no two leaves hold the same id; when the regex has no \<open>+\<close>,
  the ids held by the leaves are exactly \<open>1..n\<close>.
\<close>

theorem positions_assigned:
  assumes "parse_regex n r = Some (Inr t)"
  shows "dom (positions (annotated_memory t)) = {1..leaves t}
    \<and> (\<forall>a\<in>leaf_idents t. \<exists>p. position (node_attrs (annotated_memory t) a) = Some p
           \<and> 1 \<le> p \<and> p \<le> leaves t)
    \<and> inj_on (\<lambda>a. position (node_attrs (annotated_memory t) a)) (leaf_idents t)
    \<and> (CHR ''+'' \<notin> set r \<longrightarrow>
          leaf_positions (node_attrs (annotated_memory t)) t = {1..leaves t})"
proof -
  obtain e k where t: "t = ConcatNode (Suc k) e (SymbolNode k CHR ''#'')" and e: "node_ok r 0 k e"
    using parse_regex_shape [OF assms] by blast
  have wf: "wf_node t"
    using node_ok_root(1) [OF e] by (simp add: t)
  have an: "annotated (node_attrs (annotated_memory t)) (positions (annotated_memory t)) 1 (Suc (leaves t)) t"
    using annotated_memory_root(5) [OF e] by (simp add: t)
  have 1: "dom (positions (annotated_memory t)) = {1..leaves t}"
    using annotated_memory_root(7) [OF e] by (simp add: t)
  have 2: "\<exists>p. position (node_attrs (annotated_memory t) a) = Some p \<and> 1 \<le> p \<and> p \<le> leaves t"
    if "a \<in> leaf_idents t" for a
  proof -
    from annotated_leaf_holds [OF an that] obtain p where
      "position (node_attrs (annotated_memory t) a) = Some p" "1 \<le> p" "p < Suc (leaves t)"
      by blast
    then show ?thesis by (intro exI [of _ p]) simp
  qed
  have 3: "inj_on (\<lambda>a. position (node_attrs (annotated_memory t) a)) (leaf_idents t)"
    unfolding annotated_memory_eq by (rule annotate_leaf_inj [OF wf])
  have 4: "leaf_positions (node_attrs (annotated_memory t)) t = {1..leaves t}"
    if "CHR ''+'' \<notin> set r"
  proof -
    have "unshared t"
      using node_ok_unshared_root [OF e that] by (simp only: t)
    from annotate_leaf_dense [OF this, of fresh_memory]
    have "leaf_positions (node_attrs (annotated_memory t)) t = {1..<1 + leaves t}"
      by (simp only: annotated_memory_eq fresh_memory_position_counter)
    also have "\<dots> = {1..leaves t}"
      by (simp add: atLeastLessThanSuc_atLeastAtMost)
    finally show ?thesis .
  qed
  show ?thesis
  proof (intro conjI ballI impI)
    show "dom (positions (annotated_memory t)) = {1..leaves t}" by (rule 1)
    show "\<exists>p. position (node_attrs (annotated_memory t) a) = Some p \<and> 1 \<le> p \<and> p \<le> leaves t"
      if "a \<in> leaf_idents t" for a by (rule 2 [OF that])
    show "inj_on (\<lambda>a. position (node_attrs (annotated_memory t) a)) (leaf_idents t)" by (rule 3)
    show "leaf_positions (node_attrs (annotated_memory t)) t = {1..leaves t}"
      if "CHR ''+'' \<notin> set r" by (rule 4 [OF that])
  qed
qed

text \<open>Claim C2, witness: the regex \<open>a*\<close>, with the leaf \<open>a\<close> (object 0) and the end marker.\<close>

theorem positions_assigned_witness:
  "parse_regex 5 ''a*'' = Some (Inr tree_a_star)
   \<and> dom (positions (annotated_memory tree_a_star)) = {1..leaves tree_a_star}
   \<and> 0 \<in> leaf_idents tree_a_star
   \<and> (\<exists>p. position (node_attrs (annotated_memory tree_a_star) 0) = Some p
         \<and> 1 \<le> p \<and> p \<le> leaves tree_a_star)
   \<and> inj_on (\<lambda>a. position (node_attrs (annotated_memory tree_a_star) a)) (leaf_idents tree_a_star)
   \<and> CHR ''+'' \<notin> set ''a*''
   \<and> leaf_positions (node_attrs (annotated_memory tree_a_star)) tree_a_star
       = {1..leaves tree_a_star}"
proof -
  have l: "0 \<in> leaf_idents tree_a_star"
    by (simp add: tree_a_star_def)
  have p: "CHR ''+'' \<notin> set ''a*''"
    by simp
  show ?thesis
    using positions_assigned [OF parse_a_star_5] parse_a_star_5 l p by blast
qed

text \<open>
  Claim C3, as stated: state 0 is accepting if and only if the language of the regex
  contains the empty string.  On the regex \<open>#\<close> state 0 is accepting, and the language
  of the expression, the one word \<open>#\<close>, does not contain the empty string: the position
  of the \<open>#\<close> that the user wrote is in the start set, and acceptance looks at the
  symbol of a position (claim C10).
\<close>

theorem start_state_counterexample:
  "(case run_pipeline 4 sorted_list_of_set module_globals ''#'' of
      Some (Inr p) \<Rightarrow>
        root p = ConcatNode 2 (SymbolNode 0 CHR ''#'') (SymbolNode 1 CHR ''#'')
        \<and> 0 \<in> accepting_states (final p)
    | _ \<Rightarrow> False)
   \<and> [] \<notin> lang (SymbolNode 0 CHR ''#'')"
proof -
  from run_hash [OF iteration_ok_sorted, of 0 module_globals] obtain p where
    "run_pipeline 4 sorted_list_of_set module_globals ''#'' = Some (Inr p)"
    "root p = tree_hash" "0 \<in> accepting_states (final p)"
    by auto
  then show ?thesis
    by (simp add: tree_hash_def)
qed

text \<open>
  Claim C3, amended: for every parsed regex the conversion returns; state 0's
  position-set is the \<open>firstpos\<close> of the annotated root; and when the regex has no
  literal \<open>#\<close>, state 0 is accepting if and only if the language of the expression
  (the tree under the root, beside the end marker) contains the empty string.
\<close>

theorem start_state:
  assumes "parse_regex n r = Some (Inr t)" and "iteration_ok it"
  shows "\<exists>p a e h. run_pipeline n it g r = Some (Inr p)
           \<and> root p = ConcatNode a e (SymbolNode h CHR ''#'')
           \<and> state_pos (final p) 0 = Some (firstpos (node_attrs (mem p) (ident (root p))))
           \<and> (CHR ''#'' \<notin> set r \<longrightarrow> (0 \<in> accepting_states (final p)) = ([] \<in> lang e))"
proof -
  obtain e k where t: "t = ConcatNode (Suc k) e (SymbolNode k CHR ''#'')" and e: "node_ok r 0 k e"
    using parse_regex_shape [OF assms(1)] by blast
  let ?m = "annotated_memory t"
  let ?S = "firstpos (node_attrs ?m (ident t))"
  from pipeline_ok(1) [OF assms, of g] obtain d where
    run: "run_pipeline n it g r = Some (Inr \<lparr>root = t, mem = ?m,
            followpos_table = compute_followpos it (node_attrs ?m) t Map.empty, final = d\<rparr>)"
    and res: "dfa_result (positions ?m) (compute_followpos it (node_attrs ?m) t Map.empty)
               (Pow (leaf_positions (node_attrs ?m) t)) ?S d"
    by blast
  have s0: "state_pos d 0 = Some ?S"
    using res by (simp add: dfa_result_def)
  have acc: "(0 \<in> accepting_states d) = (\<exists>q\<in>?S. positions ?m q = Some CHR ''#'')"
    by (rule dfa_result_accepting [OF res s0])
  have ae: "annotated (node_attrs ?m) (positions ?m) 1 (Suc (leaves e)) e"
    and hp: "firstpos (node_attrs ?m k) = {Suc (leaves e)}"
      "positions ?m (Suc (leaves e)) = Some CHR ''#''"
    and an: "annotated (node_attrs ?m) (positions ?m) 1 (Suc (leaves t)) t"
    using annotated_memory_root [OF e] by (simp_all add: t)
  have S: "?S = (if \<not> nullable (node_attrs ?m (ident e)) then firstpos (node_attrs ?m (ident e))
                 else firstpos (node_attrs ?m (ident e)) \<union> {Suc (leaves e)})"
    using an hp(1) unfolding t by simp
  have nohash: "positions ?m q \<noteq> Some CHR ''#''"
    if "CHR ''#'' \<notin> set r" "q \<in> firstpos (node_attrs ?m (ident e))" for q
  proof -
    have "q \<in> leaf_positions (node_attrs ?m) e"
      using annotated_firstpos [OF ae] that(2) by auto
    then obtain c where "c \<in> symbols e" "positions ?m q = Some c"
      using annotated_leaf_symbol [OF ae] by blast
    moreover have "symbols e \<subseteq> set r"
      using e by (simp add: node_ok_def)
    ultimately show ?thesis
      using that(1) by auto
  qed
  have "(0 \<in> accepting_states d) = ([] \<in> lang e)" if "CHR ''#'' \<notin> set r"
    unfolding acc annotated_nullable [OF ae, symmetric] S
    using nohash [OF that] hp(2) by auto
  then show ?thesis
    using run s0 t by auto
qed

text \<open>Claim C3, witness: the regex \<open>a*\<close>, whose language contains the empty string.\<close>

theorem start_state_witness:
  "parse_regex 5 ''a*'' = Some (Inr tree_a_star) \<and> iteration_ok sorted_list_of_set
   \<and> CHR ''#'' \<notin> set ''a*''
   \<and> (\<exists>p a e h. run_pipeline 5 sorted_list_of_set module_globals ''a*'' = Some (Inr p)
         \<and> root p = ConcatNode a e (SymbolNode h CHR ''#'')
         \<and> state_pos (final p) 0 = Some (firstpos (node_attrs (mem p) (ident (root p))))
         \<and> (0 \<in> accepting_states (final p)) = ([] \<in> lang e))"
proof -
  have h: "CHR ''#'' \<notin> set ''a*''"
    by simp
  from start_state [OF parse_a_star_5 iteration_ok_sorted, of module_globals] h
  have "\<exists>p a e h. run_pipeline 5 sorted_list_of_set module_globals ''a*'' = Some (Inr p)
         \<and> root p = ConcatNode a e (SymbolNode h CHR ''#'')
         \<and> state_pos (final p) 0 = Some (firstpos (node_attrs (mem p) (ident (root p))))
         \<and> (0 \<in> accepting_states (final p)) = ([] \<in> lang e)"
    by blast
  then show ?thesis
    using parse_a_star_5 iteration_ok_sorted h by blast
qed

text \<open>
  Claim C4: the conversion of \<open>(a|b)*abb\<close> gives an automaton with exactly 4 states;
  state 0 is not accepting and exactly one state is accepting.  This holds for every
  order in which the sets are iterated.
\<close>

theorem abb_four_states:
  assumes "iteration_ok it"
  shows "\<exists>sts acc. convert (n + 14) it g ''(a|b)*abb'' = Some (Inr (sts, acc))
           \<and> length sts = 4 \<and> 0 \<notin> acc \<and> card acc = 1"
proof -
  let ?P = "positions (annotated_memory tree_abb)"
  let ?F = "compute_followpos it (node_attrs (annotated_memory tree_abb)) tree_abb Map.empty"
  let ?S0 = "{1, 2, 3} :: nat set" and ?S1 = "{1, 2, 3, 4} :: nat set"
  let ?S2 = "{1, 2, 3, 5} :: nat set" and ?S3 = "{1, 2, 3, 6} :: nat set"
  define A where "A = {?S0, ?S1, ?S2, ?S3}"
  have mem: "?S0 \<in> A" "?S1 \<in> A" "?S2 \<in> A" "?S3 \<in> A"
    unfolding A_def by (intro insertI1 insertI2)+
  have cases: "S = ?S0 \<or> S = ?S1 \<or> S = ?S2 \<or> S = ?S3" if "S \<in> A" for S
    using that unfolding A_def by blast
  note ev = abb_eval(1-14) abb_eval(15-24) [OF assms]
  have sy: "syms ?P ?S0 = {CHR ''a'', CHR ''b''}" "syms ?P ?S1 = {CHR ''a'', CHR ''b''}"
    "syms ?P ?S2 = {CHR ''a'', CHR ''b''}" "syms ?P ?S3 = {CHR ''a'', CHR ''b''}"
    by (auto simp: syms_def ev)
  have su: "succ_pos ?P ?F ?S0 CHR ''a'' = ?S1" "succ_pos ?P ?F ?S0 CHR ''b'' = ?S0"
    "succ_pos ?P ?F ?S1 CHR ''a'' = ?S1" "succ_pos ?P ?F ?S1 CHR ''b'' = ?S2"
    "succ_pos ?P ?F ?S2 CHR ''a'' = ?S1" "succ_pos ?P ?F ?S2 CHR ''b'' = ?S3"
    "succ_pos ?P ?F ?S3 CHR ''a'' = ?S1" "succ_pos ?P ?F ?S3 CHR ''b'' = ?S0"
    by (auto simp: succ_pos_def ev)
  have dm: "{1, 2, 3, 4, 5, 6} \<subseteq> dom ?P"
    by (auto simp: ev)
  have sm: "succ_pos ?P ?F ?S0 CHR ''a'' \<in> A" "succ_pos ?P ?F ?S0 CHR ''b'' \<in> A"
    "succ_pos ?P ?F ?S1 CHR ''a'' \<in> A" "succ_pos ?P ?F ?S1 CHR ''b'' \<in> A"
    "succ_pos ?P ?F ?S2 CHR ''a'' \<in> A" "succ_pos ?P ?F ?S2 CHR ''b'' \<in> A"
    "succ_pos ?P ?F ?S3 CHR ''a'' \<in> A" "succ_pos ?P ?F ?S3 CHR ''b'' \<in> A"
    unfolding su by (rule mem)+
  have fin: "finite ?S0" "finite ?S1" "finite ?S2" "finite ?S3"
    by simp_all
  have sub: "?S0 \<subseteq> dom ?P" "?S1 \<subseteq> dom ?P" "?S2 \<subseteq> dom ?P" "?S3 \<subseteq> dom ?P"
    using dm by simp_all
  have cl: "closed_sets ?P ?F A"
    unfolding A_def
    by (rule closed_sets_four [OF fin sub sy sm [unfolded A_def]])
  have "finite A"
    unfolding A_def by simp
  have S0: "firstpos (node_attrs (annotated_memory tree_abb) (ident tree_abb)) \<in> A"
    unfolding ev by (rule mem)
  from pipeline_closed [OF parse_abb [of n] assms cl S0, where g = g]
  obtain d where conv: "convert (n + 14) it g ''(a|b)*abb'' = Some (Inr (states d, accepting_states d))"
    and res: "dfa_result ?P ?F A ?S0 d"
    by (auto simp: ev)
  have inv: "dfa_inv ?P A d"
    using res by (simp add: dfa_result_def)
  have dom: "dom (state_pos d) = {..<length (states d)}"
    and inA: "\<And>j S. state_pos d j = Some S \<Longrightarrow> S \<in> A"
    and acc: "accepting_states d = {i. \<exists>S. state_pos d i = Some S \<and> (\<exists>q\<in>S. ?P q = Some CHR ''#'')}"
    using inv by (auto simp: dfa_inv_def)
  have s0: "state_pos d 0 = Some ?S0"
    using res by (simp add: dfa_result_def)
  have ia: "CHR ''a'' \<in> syms ?P ?S0" and ib: "CHR ''b'' \<in> syms ?P ?S1" "CHR ''b'' \<in> syms ?P ?S2"
    unfolding sy by simp_all
  from dfa_result_step [OF res s0 ia su(1)] obtain k1 where k1: "state_pos d k1 = Some ?S1"
    by blast
  from dfa_result_step [OF res k1 ib(1) su(4)] obtain k2 where k2: "state_pos d k2 = Some ?S2"
    by blast
  from dfa_result_step [OF res k2 ib(2) su(6)] obtain k3 where k3: "state_pos d k3 = Some ?S3"
    by blast
  have ne: "?S0 \<noteq> ?S1" "?S0 \<noteq> ?S2" "?S0 \<noteq> ?S3" "?S1 \<noteq> ?S2" "?S1 \<noteq> ?S3" "?S2 \<noteq> ?S3"
    by auto
  have dist: "distinct [0, k1, k2, k3]"
    by (rule four_distinct [where f = "state_pos d", OF s0 k1 k2 k3 ne])
  have lo: "4 \<le> length (states d)"
    by (rule four_le [OF dist dom_lessThan [OF dom s0] dom_lessThan [OF dom k1]
          dom_lessThan [OF dom k2] dom_lessThan [OF dom k3]])
  have "length (states d) \<le> card A"
    by (rule dfa_inv_bound [OF inv \<open>finite A\<close>])
  moreover have "A = set [?S0, ?S1, ?S2, ?S3]"
    unfolding A_def by simp
  then have "card A \<le> 4"
    using card_length [of "[?S0, ?S1, ?S2, ?S3]"] by simp
  ultimately have len: "length (states d) = 4"
    using lo by simp
  have nohash: "\<not> (\<exists>q\<in>S. ?P q = Some CHR ''#'')" if "S \<in> {?S0, ?S1, ?S2}" for S
    using that by (auto simp: ev)
  have "accepting_states d = {k3}"
  proof (rule set_eqI)
    fix j
    show "(j \<in> accepting_states d) = (j \<in> {k3})"
    proof
      assume "j \<in> accepting_states d"
      then obtain S where S: "state_pos d j = Some S" "\<exists>q\<in>S. ?P q = Some CHR ''#''"
        unfolding acc by blast
      have "S = ?S0 \<or> S = ?S1 \<or> S = ?S2 \<or> S = ?S3"
        by (rule cases [OF inA [OF S(1)]])
      with S(2) nohash [of S] have "S = ?S3"
        by blast
      then have "j = k3"
        using S(1) k3 dfa_result_inj [OF res] by blast
      then show "j \<in> {k3}" by simp
    next
      assume "j \<in> {k3}"
      then show "j \<in> accepting_states d"
        unfolding acc using k3 by (auto simp: ev)
    qed
  qed
  moreover have "k3 \<noteq> 0"
    using dist by simp
  ultimately have "0 \<notin> accepting_states d" "card (accepting_states d) = 1"
    by simp_all
  with conv len show ?thesis by simp
qed

text \<open>Claim C4, witness: the set iteration in ascending order.\<close>

theorem abb_four_states_witness:
  "iteration_ok sorted_list_of_set
   \<and> (\<exists>sts acc. convert 14 sorted_list_of_set module_globals ''(a|b)*abb'' = Some (Inr (sts, acc))
         \<and> length sts = 4 \<and> 0 \<notin> acc \<and> card acc = 1)"
  using abb_four_states [OF iteration_ok_sorted, of 0 module_globals] iteration_ok_sorted
  by simp

text \<open>
  Claim C5: for every parsed regex the worklist loop of \<open>construct_dfa\<close> terminates (the
  conversion returns, with an empty queue); a state is enqueued only when it is
  allocated, the states are numbered \<open>0..<length states\<close>, and no two states have the
  same position-set, so that each position-set is enqueued at most once; the number of
  states is at most \<open>2 ^ n\<close>, both for \<open>n\<close> the number of leaf objects and for \<open>n\<close> the
  number of leaves of the tree, end marker included.
\<close>

theorem construct_dfa_terminates:
  assumes "parse_regex n r = Some (Inr t)" and "iteration_ok it"
  shows "\<exists>p. run_pipeline n it g r = Some (Inr p) \<and> root p = t
           \<and> queue (final p) = []
           \<and> dom (state_pos (final p)) = {..<length (states (final p))}
           \<and> inj_on (state_pos (final p)) {..<length (states (final p))}
           \<and> length (states (final p)) \<le> 2 ^ card (leaf_idents t)
           \<and> length (states (final p)) \<le> 2 ^ leaves t"
proof -
  let ?m = "annotated_memory t"
  let ?U = "leaf_positions (node_attrs ?m) t"
  from pipeline_ok(1) [OF assms, of g] obtain d where
    run: "run_pipeline n it g r = Some (Inr \<lparr>root = t, mem = ?m,
            followpos_table = compute_followpos it (node_attrs ?m) t Map.empty, final = d\<rparr>)"
    and res: "dfa_result (positions ?m) (compute_followpos it (node_attrs ?m) t Map.empty)
               (Pow ?U) (firstpos (node_attrs ?m (ident t))) d"
    by blast
  have inv: "dfa_inv (positions ?m) (Pow ?U) d" and q: "queue d = []"
    using res by (auto simp: dfa_result_def)
  have dom: "dom (state_pos d) = {..<length (states d)}"
    using inv by (simp add: dfa_inv_def)
  have inj: "inj_on (state_pos d) {..<length (states d)}"
  proof (rule inj_onI)
    fix i j assume i: "i \<in> {..<length (states d)}" and "j \<in> {..<length (states d)}"
      and eq: "state_pos d i = state_pos d j"
    from i dom obtain S where si: "state_pos d i = Some S" by blast
    show "i = j"
      by (rule dfa_inv_inj [OF inv si trans [OF eq [symmetric] si]])
  qed
  have "length (states d) \<le> card (Pow ?U)"
    by (rule dfa_inv_bound [OF inv]) simp
  then have b1: "length (states d) \<le> 2 ^ card ?U"
    by (simp add: card_Pow)
  have "(2::nat) ^ card ?U \<le> 2 ^ card (leaf_idents t)"
    by (rule power_increasing [OF card_leaf_positions]) simp
  with b1 have b2: "length (states d) \<le> 2 ^ card (leaf_idents t)"
    by (rule order_trans)
  have "(2::nat) ^ card (leaf_idents t) \<le> 2 ^ leaves t"
    by (rule power_increasing [OF card_leaf_idents]) simp
  with b2 have b3: "length (states d) \<le> 2 ^ leaves t"
    by (rule order_trans)
  show ?thesis
    using run q dom inj b2 b3 by simp
qed

text \<open>Claim C5, witness: the regex \<open>a*\<close>.\<close>

theorem construct_dfa_terminates_witness:
  "parse_regex 5 ''a*'' = Some (Inr tree_a_star) \<and> iteration_ok sorted_list_of_set
   \<and> (\<exists>p. run_pipeline 5 sorted_list_of_set module_globals ''a*'' = Some (Inr p)
         \<and> root p = tree_a_star
         \<and> queue (final p) = []
         \<and> dom (state_pos (final p)) = {..<length (states (final p))}
         \<and> inj_on (state_pos (final p)) {..<length (states (final p))}
         \<and> length (states (final p)) \<le> 2 ^ card (leaf_idents tree_a_star)
         \<and> length (states (final p)) \<le> 2 ^ leaves tree_a_star)"
  by (intro conjI parse_a_star_5 iteration_ok_sorted
      construct_dfa_terminates [OF parse_a_star_5 iteration_ok_sorted])

text \<open>
  Claim C6: the conversion of \<open>a*\<close> gives an automaton whose state 0 is accepting and
  has a transition on \<open>a\<close> to state 0 itself.  This holds for every order in which the
  sets are iterated.
\<close>

theorem a_star_self_loop:
  assumes "iteration_ok it"
  shows "\<exists>sts acc. convert (n + 5) it g ''a*'' = Some (Inr (sts, acc))
           \<and> 0 \<in> acc \<and> (sts ! 0) CHR ''a'' = Some 0"
proof -
  let ?P = "positions (annotated_memory tree_a_star)"
  let ?F = "compute_followpos it (node_attrs (annotated_memory tree_a_star)) tree_a_star Map.empty"
  from pipeline_ok(2) [OF parse_a_star [of n] assms]
  have cl: "closed_sets ?P ?F (Pow {1, 2})"
    by (simp add: a_star_eval)
  from pipeline_closed [OF parse_a_star [of n] assms cl, where g = g]
  obtain d where conv: "convert (n + 5) it g ''a*'' = Some (Inr (states d, accepting_states d))"
    and res: "dfa_result ?P ?F (Pow {1, 2}) {1, 2} d"
    by (auto simp: a_star_eval)
  have s0: "state_pos d 0 = Some {1, 2}"
    using res by (simp add: dfa_result_def)
  have acc: "0 \<in> accepting_states d"
    unfolding dfa_result_accepting [OF res s0] by (simp add: a_star_eval)
  have sym: "CHR ''a'' \<in> syms ?P {1, 2}"
    by (simp add: syms_def a_star_eval)
  have suc: "succ_pos ?P ?F {1, 2} CHR ''a'' = {1, 2}"
    using assms by (simp add: succ_pos_def a_star_eval)
  from dfa_result_step [OF res s0 sym suc] obtain k where
    k: "(states d ! 0) CHR ''a'' = Some k" "state_pos d k = Some {1, 2}"
    by blast
  have "k = 0"
    by (rule dfa_result_inj [OF res k(2) s0])
  with conv acc k(1) show ?thesis by simp
qed

text \<open>Claim C6, witness: the set iteration in ascending order.\<close>

theorem a_star_self_loop_witness:
  "iteration_ok sorted_list_of_set
   \<and> (\<exists>sts acc. convert 5 sorted_list_of_set module_globals ''a*'' = Some (Inr (sts, acc))
         \<and> 0 \<in> acc \<and> (sts ! 0) CHR ''a'' = Some 0)"
  using a_star_self_loop [OF iteration_ok_sorted, of 0 module_globals] iteration_ok_sorted
  by simp

text \<open>
  Claim C7: for every parsed and annotated regex, the position of the end marker \<open>#\<close>
  that \<open>parse\<close> appends (the last position assigned, mapped to \<open>#\<close> in the table) is not
  a key of the followpos table.
\<close>

theorem end_marker_not_followpos_key:
  assumes "parse_regex n r = Some (Inr t)" and "iteration_ok it"
  shows "\<exists>a e h q. t = ConcatNode a e (SymbolNode h CHR ''#'')
           \<and> position (node_attrs (annotated_memory t) h) = Some q
           \<and> positions (annotated_memory t) q = Some CHR ''#''
           \<and> q = leaves t
           \<and> q \<notin> dom (compute_followpos it (node_attrs (annotated_memory t)) t Map.empty)"
proof -
  obtain e k where t: "t = ConcatNode (Suc k) e (SymbolNode k CHR ''#'')" and e: "node_ok r 0 k e"
    using parse_regex_shape [OF assms(1)] by blast
  let ?m = "annotated_memory t"
  let ?st = "node_attrs ?m"
  have ae: "annotated ?st (positions ?m) 1 (Suc (leaves e)) e"
    and hp: "position (?st k) = Some (Suc (leaves e))"
      "positions ?m (Suc (leaves e)) = Some CHR ''#''"
    using annotated_memory_root [OF e] by (simp_all add: t)
  let ?t1 = "add_follow (firstpos (?st k)) (it (lastpos (?st (ident e)))) Map.empty"
  have "set (it (lastpos (?st (ident e)))) \<subseteq> leaf_positions ?st e"
    using iteration_ok_set [OF assms(2) annotated_finite(2) [OF ae]] annotated_lastpos [OF ae] by auto
  then have "dom ?t1 \<subseteq> leaf_positions ?st e"
    unfolding add_follow_dom by simp
  moreover have "dom (compute_followpos it ?st e ?t1) \<subseteq> dom ?t1 \<union> leaf_positions ?st e"
    by (rule compute_followpos_dom [OF assms(2) ae])
  moreover have "dom (compute_followpos it ?st t Map.empty) = dom (compute_followpos it ?st e ?t1)"
    unfolding t by simp
  ultimately have "dom (compute_followpos it ?st t Map.empty) \<subseteq> leaf_positions ?st e"
    by blast
  moreover have "Suc (leaves e) \<notin> leaf_positions ?st e"
    using annotated_leaf_range [OF ae, of "Suc (leaves e)"] by auto
  ultimately have "Suc (leaves e) \<notin> dom (compute_followpos it ?st t Map.empty)"
    by blast
  moreover have "leaves t = Suc (leaves e)"
    by (simp add: t)
  ultimately show ?thesis
    using hp t by auto
qed

text \<open>Claim C7, witness: the regex \<open>a*\<close>.\<close>

theorem end_marker_not_followpos_key_witness:
  "parse_regex 5 ''a*'' = Some (Inr tree_a_star) \<and> iteration_ok sorted_list_of_set
   \<and> (\<exists>a e h q. tree_a_star = ConcatNode a e (SymbolNode h CHR ''#'')
         \<and> position (node_attrs (annotated_memory tree_a_star) h) = Some q
         \<and> positions (annotated_memory tree_a_star) q = Some CHR ''#''
         \<and> q = leaves tree_a_star
         \<and> q \<notin> dom (compute_followpos sorted_list_of_set
                       (node_attrs (annotated_memory tree_a_star)) tree_a_star Map.empty))"
  by (intro conjI parse_a_star_5 iteration_ok_sorted
      end_marker_not_followpos_key [OF parse_a_star_5 iteration_ok_sorted])

text \<open>
  Claim C8: the conversion is deterministic.  The result of the conversion of a regex
  does not depend on what the globals hold before the call, which the callers reset:
  two runs on the same regex, the second one after the first or after any other run,
  give the same states, transitions and accepting set (and the same intermediate
  values).
\<close>

theorem convert_deterministic:
  "convert n it g1 r = convert n it g2 r \<and> run_pipeline n it g1 r = run_pipeline n it g2 r"
  by (simp add: convert_def run_pipeline_eq)

text \<open>
  Claim C9: the parser does not require the whole input to be consumed.  On \<open>a)b\<close>
  \<open>parse\<close> raises nothing and returns the tree of \<open>a\<close> with the end marker, the same
  tree as for the input \<open>a\<close>; the parser stands at index 1, on the \<open>)\<close>, which is never
  read again, nor is the \<open>b\<close> after it.
\<close>

theorem parse_stops_at_unmatched_close:
  "parse (n + 4) (RegexParser_init ''a)b'') =
     Some (Inr (ConcatNode 2 (SymbolNode 0 CHR ''a'') (SymbolNode 1 CHR ''#''),
                \<lparr>regex = ''a)b'', pos = 1, current_char = Some CHR '')'', next_id = 3\<rparr>))
   \<and> parse_regex (n + 4) ''a)b'' = parse_regex (n + 4) ''a''"
  by (simp add: parser_eval eval_nat_numeral)

text \<open>
  Claim C10: acceptance is decided by the symbol of a position.  In every conversion a
  state is accepting if and only if its position-set holds a position that the table
  maps to \<open>#\<close>, and every transition of a state carries a symbol other than \<open>#\<close> that
  the table gives to one of the state's positions: a position mapped to \<open>#\<close> adds no
  transition.  For the regex \<open>#\<close> the leaf that the user wrote has position 1 and the
  end marker position 2; state 0 is \<open>{1}\<close>, it is accepting, and it has no transition.
\<close>

theorem acceptance_by_symbol:
  assumes "iteration_ok it"
  shows "(parse_regex n r = Some (Inr t) \<longrightarrow>
           (\<exists>p. run_pipeline n it g r = Some (Inr p)
              \<and> (\<forall>j S. state_pos (final p) j = Some S \<longrightarrow>
                    (j \<in> accepting_states (final p))
                      = (\<exists>q\<in>S. positions (mem p) q = Some CHR ''#'')
                    \<and> (\<forall>c k. (states (final p) ! j) c = Some k \<longrightarrow>
                          c \<noteq> CHR ''#'' \<and> (\<exists>q\<in>S. positions (mem p) q = Some c)))))
       \<and> (\<exists>p. run_pipeline (m + 4) it g ''#'' = Some (Inr p)
              \<and> root p = ConcatNode 2 (SymbolNode 0 CHR ''#'') (SymbolNode 1 CHR ''#'')
              \<and> position (node_attrs (mem p) 0) = Some 1
              \<and> position (node_attrs (mem p) 1) = Some 2
              \<and> state_pos (final p) 0 = Some {1}
              \<and> 0 \<in> accepting_states (final p)
              \<and> states (final p) ! 0 = Map.empty)"
proof (intro conjI impI)
  assume p: "parse_regex n r = Some (Inr t)"
  let ?m = "annotated_memory t"
  let ?F = "compute_followpos it (node_attrs ?m) t Map.empty"
  from pipeline_ok(1) [OF p assms, of g] obtain d where
    run: "run_pipeline n it g r = Some (Inr \<lparr>root = t, mem = ?m, followpos_table = ?F, final = d\<rparr>)"
    and res: "dfa_result (positions ?m) ?F (Pow (leaf_positions (node_attrs ?m) t))
               (firstpos (node_attrs ?m (ident t))) d"
    by blast
  have "(j \<in> accepting_states d) = (\<exists>q\<in>S. positions ?m q = Some CHR ''#'')
        \<and> (\<forall>c k. (states d ! j) c = Some k \<longrightarrow>
              c \<noteq> CHR ''#'' \<and> (\<exists>q\<in>S. positions ?m q = Some c))"
    if j: "state_pos d j = Some S" for j S
  proof (intro conjI allI impI)
    show "(j \<in> accepting_states d) = (\<exists>q\<in>S. positions ?m q = Some CHR ''#'')"
      by (rule dfa_result_accepting [OF res j])
    fix c k assume "(states d ! j) c = Some k"
    then have "c \<in> syms (positions ?m) S"
      using dfa_result_transition(1) [OF res j, of c] by (auto split: if_splits)
    then show "c \<noteq> CHR ''#''" "\<exists>q\<in>S. positions ?m q = Some c"
      by (auto simp: syms_def)
  qed
  with run show "\<exists>p. run_pipeline n it g r = Some (Inr p)
      \<and> (\<forall>j S. state_pos (final p) j = Some S \<longrightarrow>
            (j \<in> accepting_states (final p)) = (\<exists>q\<in>S. positions (mem p) q = Some CHR ''#'')
            \<and> (\<forall>c k. (states (final p) ! j) c = Some k \<longrightarrow>
                  c \<noteq> CHR ''#'' \<and> (\<exists>q\<in>S. positions (mem p) q = Some c)))"
    by simp
next
  from run_hash [OF assms, of m g] obtain p where
    p: "run_pipeline (m + 4) it g ''#'' = Some (Inr p)" "root p = tree_hash"
    "mem p = annotated_memory tree_hash" "state_pos (final p) 0 = Some {1}"
    "0 \<in> accepting_states (final p)" "states (final p) ! 0 = Map.empty"
    by blast
  have r: "root p = ConcatNode 2 (SymbolNode 0 CHR ''#'') (SymbolNode 1 CHR ''#'')"
    unfolding p(2) tree_hash_def ..
  have ps: "position (node_attrs (mem p) 0) = Some 1" "position (node_attrs (mem p) 1) = Some 2"
    unfolding p(3) by (rule mem_hash)+
  show "\<exists>p. run_pipeline (m + 4) it g ''#'' = Some (Inr p)
              \<and> root p = ConcatNode 2 (SymbolNode 0 CHR ''#'') (SymbolNode 1 CHR ''#'')
              \<and> position (node_attrs (mem p) 0) = Some 1
              \<and> position (node_attrs (mem p) 1) = Some 2
              \<and> state_pos (final p) 0 = Some {1}
              \<and> 0 \<in> accepting_states (final p)
              \<and> states (final p) ! 0 = Map.empty"
    by (intro exI [of _ p] conjI p(1) r ps p(4,5,6))
qed

text \<open>
  Claim C10, witness: the regex \<open>#\<close> itself, with the set iteration in ascending order;
  state 0 is \<open>{1}\<close>, position 1 is mapped to \<open>#\<close>, and state 0 is accepting.
\<close>

theorem acceptance_by_symbol_witness:
  "iteration_ok sorted_list_of_set \<and> parse_regex 4 ''#'' = Some (Inr tree_hash)
   \<and> (\<exists>p. run_pipeline 4 sorted_list_of_set module_globals ''#'' = Some (Inr p)
         \<and> state_pos (final p) 0 = Some {1}
         \<and> (0 \<in> accepting_states (final p)) = (\<exists>q\<in>{1}. positions (mem p) q = Some CHR ''#'')
         \<and> 0 \<in> accepting_states (final p)
         \<and> states (final p) ! 0 = Map.empty)"
proof -
  have ph: "parse_regex 4 ''#'' = Some (Inr tree_hash)"
    using parse_hash [of 0] by simp
  note th = acceptance_by_symbol [OF iteration_ok_sorted, of 4 "''#''" tree_hash module_globals 0]
  from th [THEN conjunct1, THEN mp, OF ph]
  obtain p where p: "run_pipeline 4 sorted_list_of_set module_globals ''#'' = Some (Inr p)
    \<and> (\<forall>j S. state_pos (final p) j = Some S \<longrightarrow>
          (j \<in> accepting_states (final p)) = (\<exists>q\<in>S. positions (mem p) q = Some CHR ''#'')
          \<and> (\<forall>c k. (states (final p) ! j) c = Some k \<longrightarrow>
                c \<noteq> CHR ''#'' \<and> (\<exists>q\<in>S. positions (mem p) q = Some c)))" ..
  from th [THEN conjunct2]
  obtain q where q: "run_pipeline (0 + 4) sorted_list_of_set module_globals ''#'' = Some (Inr q)
      \<and> root q = ConcatNode 2 (SymbolNode 0 CHR ''#'') (SymbolNode 1 CHR ''#'')
      \<and> position (node_attrs (mem q) 0) = Some 1
      \<and> position (node_attrs (mem q) 1) = Some 2
      \<and> state_pos (final q) 0 = Some {1}
      \<and> 0 \<in> accepting_states (final q)
      \<and> states (final q) ! 0 = Map.empty" ..
  have "q = p"
    using p [THEN conjunct1] q [THEN conjunct1] by simp
  note q = q [unfolded this]
  have s0: "state_pos (final p) 0 = Some {1}" and acc: "0 \<in> accepting_states (final p)"
    and em: "states (final p) ! 0 = Map.empty"
    using q by blast+
  note gen = p [THEN conjunct2, rule_format, OF s0, THEN conjunct1]
  show ?thesis
    by (intro conjI iteration_ok_sorted ph exI [of _ p] p [THEN conjunct1] s0 acc em gen)
qed

end
